theory Spec2Isabelle
  imports Complex_Main "HOL-Library.Word"
begin

unbundle bit_operations_syntax

section \<open>JavaScript numbers and typed arrays\<close>

text \<open>
  Integer-valued JavaScript numbers are modelled as \<open>int\<close>. The bitwise operators of
  JavaScript first convert their operands to signed 32-bit integers (ToInt32) and return
  a signed 32-bit integer; the conversion is written out with \<open>signed_take_bit 31\<close>.
  \<open>>>\<close> is the arithmetic (sign-propagating) shift.
\<close>

definition ToInt32 :: "int \<Rightarrow> int" where
  "ToInt32 x = signed_take_bit 31 x"

definition js_and :: "int \<Rightarrow> int \<Rightarrow> int" where
  "js_and a b = ToInt32 a AND ToInt32 b"

definition js_or :: "int \<Rightarrow> int \<Rightarrow> int" where
  "js_or a b = ToInt32 a OR ToInt32 b"

definition js_shl :: "int \<Rightarrow> nat \<Rightarrow> int" where
  "js_shl a n = ToInt32 (push_bit (n mod 32) (ToInt32 a))"

definition js_sar :: "int \<Rightarrow> nat \<Rightarrow> int" where
  "js_sar a n = drop_bit (n mod 32) (ToInt32 a)"

datatype error = RangeError | InvalidMidiHeader

type_synonym u8 = "8 word"

text \<open>\<open>DataView.getUint8\<close>: a read outside the buffer throws a RangeError.\<close>

definition getUint8 :: "u8 list \<Rightarrow> int \<Rightarrow> error + int" where
  "getUint8 view i =
     (if 0 \<le> i \<and> i < int (length view) then Inr (uint (view ! nat i)) else Inl RangeError)"

text \<open>\<open>getUint16\<close> and \<open>getUint32\<close> read big-endian, as \<open>DataView\<close> does by default.\<close>

definition getUint16 :: "u8 list \<Rightarrow> int \<Rightarrow> error + int" where
  "getUint16 view i =
     (if 0 \<le> i \<and> i + 2 \<le> int (length view)
      then Inr (uint (view ! nat i) * 256 + uint (view ! nat (i + 1)))
      else Inl RangeError)"

definition getUint32 :: "u8 list \<Rightarrow> int \<Rightarrow> error + int" where
  "getUint32 view i =
     (if 0 \<le> i \<and> i + 4 \<le> int (length view)
      then Inr (((uint (view ! nat i) * 256 + uint (view ! nat (i + 1))) * 256
                 + uint (view ! nat (i + 2))) * 256 + uint (view ! nat (i + 3)))
      else Inl RangeError)"

text \<open>Sequencing of computations that may throw.\<close>

definition bindE :: "error + 'a \<Rightarrow> ('a \<Rightarrow> error + 'b) \<Rightarrow> error + 'b" where
  "bindE m f = (case m of Inl e \<Rightarrow> Inl e | Inr x \<Rightarrow> f x)"

section \<open>Variable-length quantities (services/midiIO.ts, hand-written codec)\<close>

text \<open>
  \<open>writeVarInt\<close>: the first loop \<open>while ((value >>= 7))\<close> packs the 7-bit groups into
  \<open>buffer\<close>, the second loop \<open>while (true)\<close> emits the bytes of \<open>buffer\<close>. Neither loop
  has a bound of its own (a negative \<open>value\<close> shifts to \<open>-1\<close> and stays there), so both
  are partial functions: \<open>None\<close> is a loop that never returns.
\<close>

partial_function (option) writeVarInt_pack :: "int \<Rightarrow> int \<Rightarrow> int option" where
  "writeVarInt_pack val buffer =
     (let val' = js_sar val 7 in
      if val' \<noteq> 0
      then writeVarInt_pack val' (js_or (js_shl buffer 8) (js_or (js_and val' 0x7F) 0x80))
      else Some buffer)"

partial_function (option) writeVarInt_emit :: "int \<Rightarrow> int list \<Rightarrow> int list option" where
  "writeVarInt_emit buffer bytes =
     (let bytes' = bytes @ [js_and buffer 0xFF] in
      if js_and buffer 0x80 \<noteq> 0
      then writeVarInt_emit (js_sar buffer 8) bytes'
      else Some bytes')"

definition writeVarInt :: "int \<Rightarrow> int list option" where
  "writeVarInt val =
     (case writeVarInt_pack val (js_and val 0x7F) of
        None \<Rightarrow> None
      | Some buffer \<Rightarrow> writeVarInt_emit buffer [])"

text \<open>
  \<open>readVarInt\<close>: the do-while loop reads one byte per round at \<open>offset + length\<close>; it
  ends at the first byte without the high bit, or with the RangeError of a read past
  the end of the buffer.
\<close>

function readVarInt_loop :: "u8 list \<Rightarrow> int \<Rightarrow> int \<Rightarrow> nat \<Rightarrow> error + (int \<times> nat)" where
  "readVarInt_loop view offset result len =
     (if 0 \<le> offset + int len \<and> offset + int len < int (length view)
      then (let byte = uint (view ! nat (offset + int len));
                result' = js_or (js_shl result 7) (js_and byte 0x7f);
                len' = len + 1
            in if js_and byte 0x80 \<noteq> 0
               then readVarInt_loop view offset result' len'
               else Inr (result', len'))
      else Inl RangeError)"
  by pat_completeness auto
termination
  by (relation "measure (\<lambda>(view, offset, result, len). nat (int (length view) - (offset + int len)))") auto

declare readVarInt_loop.simps [simp del]

definition readVarInt :: "u8 list \<Rightarrow> int \<Rightarrow> error + (int \<times> nat)" where
  "readVarInt view offset = readVarInt_loop view offset 0 0"

text \<open>\<open>new Uint8Array(numbers)\<close> stores each number modulo 256.\<close>

definition Uint8Array :: "int list \<Rightarrow> u8 list" where
  "Uint8Array xs = map word_of_int xs"


section \<open>Note names\<close>

definition NOTE_NAMES :: "string list" where
  "NOTE_NAMES = [''C'', ''C#'', ''D'', ''D#'', ''E'', ''F'', ''F#'', ''G'', ''G#'', ''A'', ''A#'', ''B'']"

text \<open>Decimal rendering of an integer, as a template literal renders a number.\<close>

fun string_of_nat :: "nat \<Rightarrow> string" where
  "string_of_nat n =
     (if n < 10 then [''0123456789'' ! n]
      else string_of_nat (n div 10) @ [''0123456789'' ! (n mod 10)])"

definition string_of_int :: "int \<Rightarrow> string" where
  "string_of_int i = (if i < 0 then CHR ''-'' # string_of_nat (nat (- i)) else string_of_nat (nat i))"

text \<open>
  The table \<open>MIDI_TO_NOTE\<close> built by \<open>initNotes\<close>: an entry for each of the 128 pitches,
  none for any other number.
\<close>

definition MIDI_TO_NOTE :: "int \<Rightarrow> string option" where
  "MIDI_TO_NOTE i =
     (if 0 \<le> i \<and> i < 128
      then Some (NOTE_NAMES ! nat (i mod 12) @ string_of_int (i div 12 - 1))
      else None)"

text \<open>\<open>Array.prototype.indexOf\<close>: the first position of the element, or \<open>-1\<close>.\<close>

fun indexOf :: "'a \<Rightarrow> 'a list \<Rightarrow> int" where
  "indexOf x [] = -1"
| "indexOf x (y # ys) = (if x = y then 0 else (let i = indexOf x ys in if i < 0 then -1 else i + 1))"

text \<open>
  The table \<open>NOTE_TO_MIDI\<close> built by \<open>initNotes\<close>: the 128 assignments
  \<open>NOTE_TO_MIDI[name] = i\<close> in the order of the loop. The source keeps the table in a
  plain object, and a lookup in a plain object also finds the properties that every
  object inherits (\<open>NOTE_TO_MIDI['constructor']\<close> is not \<open>undefined\<close>). The map below
  holds the 128 names alone: it is the table of the source on every name that is not
  the name of an inherited property, and no statement below looks up such a name.
\<close>

definition NOTE_TO_MIDI :: "string \<rightharpoonup> int" where
  "NOTE_TO_MIDI =
     fold (\<lambda>i m. m(NOTE_NAMES ! (i mod 12) @ string_of_int (int i div 12 - 1) \<mapsto> int i))
       [0..<128] Map.empty"

subsection \<open>The pattern \<open>/([A-G][#b]?)(-?\d+)/\<close>\<close>

definition is_letter :: "char \<Rightarrow> bool" where
  "is_letter c = (c \<in> set ''ABCDEFG'')"

definition is_accidental :: "char \<Rightarrow> bool" where
  "is_accidental c = (c = CHR ''#'' \<or> c = CHR ''b'')"

definition is_digit :: "char \<Rightarrow> bool" where
  "is_digit c = (c \<in> set ''0123456789'')"

text \<open>
  \<open>String.prototype.match\<close> with a pattern that has no \<open>g\<close> flag returns the leftmost
  match; at one start position the quantifiers are greedy and give characters back when
  the rest of the pattern fails. \<open>match_octave\<close> is the second group \<open>(-?\d+)\<close> at the
  start of a string, \<open>match_at\<close> the whole pattern at the start of a string, and
  \<open>note_match\<close> the search over the start positions. The result is the pair of the two
  groups.
\<close>

definition match_digits :: "string \<Rightarrow> string option" where
  "match_digits s = (let ds = takeWhile is_digit s in if ds = [] then None else Some ds)"

definition match_octave :: "string \<Rightarrow> string option" where
  "match_octave s =
     (case s of
        [] \<Rightarrow> None
      | c # r \<Rightarrow>
          if c = CHR ''-'' then
            (case match_digits r of
               Some ds \<Rightarrow> Some (c # ds)
             | None \<Rightarrow> match_digits s)
          else match_digits s)"

definition match_at :: "string \<Rightarrow> (string \<times> string) option" where
  "match_at s =
     (case s of
        [] \<Rightarrow> None
      | c # r \<Rightarrow>
          if is_letter c then
            (case (case r of
                     [] \<Rightarrow> None
                   | a # r' \<Rightarrow>
                       if is_accidental a
                       then (case match_octave r' of Some oct \<Rightarrow> Some ([c, a], oct) | None \<Rightarrow> None)
                       else None) of
               Some m \<Rightarrow> Some m
             | None \<Rightarrow> (case match_octave r of Some oct \<Rightarrow> Some ([c], oct) | None \<Rightarrow> None))
          else None)"

fun note_match :: "string \<Rightarrow> (string \<times> string) option" where
  "note_match [] = None"
| "note_match (c # r) =
     (case match_at (c # r) of Some m \<Rightarrow> Some m | None \<Rightarrow> note_match r)"

text \<open>\<open>parseInt\<close> on a string of the shape \<open>-?\d+\<close>, which is all it is given here.\<close>

definition parseInt :: "string \<Rightarrow> int" where
  "parseInt s =
     (case s of
        [] \<Rightarrow> 0
      | c # r \<Rightarrow>
          if c = CHR ''-'' then - fold (\<lambda>d acc. acc * 10 + indexOf d ''0123456789'') r 0
          else fold (\<lambda>d acc. acc * 10 + indexOf d ''0123456789'') s 0)"

definition flatMap :: "string \<rightharpoonup> string" where
  "flatMap = [''Db'' \<mapsto> ''C#'', ''Eb'' \<mapsto> ''D#'', ''Gb'' \<mapsto> ''F#'', ''Ab'' \<mapsto> ''G#'', ''Bb'' \<mapsto> ''A#'']"

text \<open>\<open>noteToMidi\<close> of the library-backed services/midiIO.ts.\<close>

definition noteToMidi :: "string \<Rightarrow> int" where
  "noteToMidi nt =
     (case note_match nt of
        None \<Rightarrow> 60
      | Some (name0, octStr) \<Rightarrow>
          let octave = parseInt octStr;
              name = (case flatMap name0 of Some sharp \<Rightarrow> sharp | None \<Rightarrow> name0);
              idx = indexOf name NOTE_NAMES
          in (octave + 1) * 12 + idx)"

text \<open>
  The pattern read as a language: a string parses as a note name when it contains a
  letter \<open>A\<close> to \<open>G\<close>, optionally followed by \<open>#\<close> or \<open>b\<close>, followed by an optional minus
  sign and at least one digit.
\<close>

definition is_note_part :: "string \<Rightarrow> bool" where
  "is_note_part name =
     (case name of
        [c] \<Rightarrow> is_letter c
      | [c, a] \<Rightarrow> is_letter c \<and> is_accidental a
      | _ \<Rightarrow> False)"

definition is_octave_part :: "string \<Rightarrow> bool" where
  "is_octave_part oct =
     (case oct of
        [] \<Rightarrow> False
      | c # r \<Rightarrow>
          if c = CHR ''-'' then r \<noteq> [] \<and> list_all is_digit r
          else list_all is_digit oct)"

definition parses_as_note :: "string \<Rightarrow> bool" where
  "parses_as_note s =
     (\<exists>pre name oct suf. s = pre @ name @ oct @ suf \<and> is_note_part name \<and> is_octave_part oct)"

section \<open>The decoder (services/midiIO.ts, hand-written \<open>parseMidiFile\<close>)\<close>

datatype event_type = On | Off

text \<open>The field \<open>note\<close> of the source is \<open>noteName\<close> here (\<open>note\<close> is a keyword).\<close>

record AppEvent =
  time :: real
  type :: event_type
  noteName :: string
  transpose :: int
  instrumentId :: string
  velocity :: "int option"

text \<open>
  The variables of the track loop. \<open>usPerBeat\<close> and \<open>events\<close> are declared outside the
  loop over the tracks and live on from one track to the next.
\<close>

record decoder_state =
  cursor :: int
  usPerBeat :: int
  events :: "AppEvent list"
  currentTimeTicks :: int
  currentTimeMs :: real
  lastStatus :: int

definition note_name :: "int \<Rightarrow> string" where
  "note_name n = (case MIDI_TO_NOTE n of Some s \<Rightarrow> s | None \<Rightarrow> ''C4'')"

text \<open>
  One round of \<open>while (cursor < endOfTrack)\<close>. The division \<open>/ (ppq * 1000)\<close> is the
  division of real numbers; a file whose time division is 0 makes JavaScript produce
  \<open>Infinity\<close> or \<open>NaN\<close> there, which this model does not represent.
\<close>

definition parse_event :: "u8 list \<Rightarrow> int \<Rightarrow> decoder_state \<Rightarrow> error + decoder_state" where
  "parse_event view ppq st =
     bindE (readVarInt view (cursor st)) (\<lambda>(deltaTicks, deltaLen).
       let cur = cursor st + int deltaLen;
           ticks = currentTimeTicks st + deltaTicks;
           deltaMs = real_of_int (deltaTicks * usPerBeat st) / real_of_int (ppq * 1000);
           ms = currentTimeMs st + deltaMs
       in bindE (getUint8 view cur) (\<lambda>status0.
         let running = (js_and status0 0x80 = 0);
             status = (if running then lastStatus st else status0);
             last = (if running then lastStatus st else status0);
             cur = (if running then cur else cur + 1);
             st1 = st\<lparr>currentTimeTicks := ticks, currentTimeMs := ms, lastStatus := last\<rparr>;
             eventType = js_sar status 4
         in if eventType = 0x8 then
              bindE (getUint8 view cur) (\<lambda>n.
              bindE (getUint8 view (cur + 1)) (\<lambda>vel.
                Inr (st1\<lparr>cursor := cur + 2,
                      events := events st @ [\<lparr>time = ms, type = Off, noteName = note_name n,
                        transpose = 0, instrumentId = ''salamander'', velocity = Some vel\<rparr>]\<rparr>)))
            else if eventType = 0x9 then
              bindE (getUint8 view cur) (\<lambda>n.
              bindE (getUint8 view (cur + 1)) (\<lambda>vel.
                if vel = 0 then
                  Inr (st1\<lparr>cursor := cur + 2,
                      events := events st @ [\<lparr>time = ms, type = Off, noteName = note_name n,
                        transpose = 0, instrumentId = ''salamander'', velocity = Some 0\<rparr>]\<rparr>)
                else
                  Inr (st1\<lparr>cursor := cur + 2,
                      events := events st @ [\<lparr>time = ms, type = On, noteName = note_name n,
                        transpose = 0, instrumentId = ''salamander'', velocity = Some vel\<rparr>]\<rparr>)))
            else if eventType = 0xF then
              (if status = 0xFF then
                 bindE (getUint8 view cur) (\<lambda>mtype.
                 bindE (readVarInt view (cur + 1)) (\<lambda>(len, lenBytes).
                   let cur2 = cur + 1 + int lenBytes in
                   if mtype = 0x51 then
                     bindE (getUint8 view cur2) (\<lambda>b0.
                     bindE (getUint8 view (cur2 + 1)) (\<lambda>b1.
                     bindE (getUint8 view (cur2 + 2)) (\<lambda>b2.
                       let micros = js_or (js_or (js_shl b0 16) (js_shl b1 8)) b2
                       in Inr (st1\<lparr>cursor := cur2 + len, usPerBeat := micros\<rparr>))))
                   else Inr (st1\<lparr>cursor := cur2 + len\<rparr>)))
               else Inr (st1\<lparr>cursor := cur + 1\<rparr>))
            else if eventType = 0xC \<or> eventType = 0xD then Inr (st1\<lparr>cursor := cur + 1\<rparr>)
            else Inr (st1\<lparr>cursor := cur + 2\<rparr>)))"

text \<open>
  The loop over the events of one track. A length field that decodes to a negative
  number moves the cursor backwards, so the loop has no bound: \<open>None\<close> is a decoder that
  never returns, \<open>Some (Inl e)\<close> one that throws.
\<close>

partial_function (option) track_loop ::
  "u8 list \<Rightarrow> int \<Rightarrow> int \<Rightarrow> decoder_state \<Rightarrow> (error + decoder_state) option" where
  "track_loop view ppq endOfTrack st =
     (if cursor st < endOfTrack
      then (case parse_event view ppq st of
              Inl e \<Rightarrow> Some (Inl e)
            | Inr st' \<Rightarrow> track_loop view ppq endOfTrack st')
      else Some (Inr st))"

text \<open>
  One track chunk: the four bytes of the chunk id are read (and not compared with
  anything), then the length, then the events up to \<open>endOfTrack\<close>.
\<close>

definition parse_track :: "u8 list \<Rightarrow> int \<Rightarrow> decoder_state \<Rightarrow> (error + decoder_state) option" where
  "parse_track view ppq st =
     (case bindE (getUint8 view (cursor st)) (\<lambda>_.
           bindE (getUint8 view (cursor st + 1)) (\<lambda>_.
           bindE (getUint8 view (cursor st + 2)) (\<lambda>_.
           bindE (getUint8 view (cursor st + 3)) (\<lambda>_.
           getUint32 view (cursor st + 4))))) of
        Inl e \<Rightarrow> Some (Inl e)
      | Inr trackLen \<Rightarrow>
          track_loop view ppq (cursor st + 8 + trackLen)
            (st\<lparr>cursor := cursor st + 8, currentTimeTicks := 0, currentTimeMs := 0,
                lastStatus := 0\<rparr>))"

fun parse_tracks :: "u8 list \<Rightarrow> int \<Rightarrow> nat \<Rightarrow> decoder_state \<Rightarrow> (error + decoder_state) option" where
  "parse_tracks view ppq 0 st = Some (Inr st)"
| "parse_tracks view ppq (Suc n) st =
     (case parse_track view ppq st of
        None \<Rightarrow> None
      | Some (Inl e) \<Rightarrow> Some (Inl e)
      | Some (Inr st') \<Rightarrow> parse_tracks view ppq n st')"

text \<open>
  \<open>events.sort((a, b) => a.time - b.time)\<close>: \<open>Array.prototype.sort\<close> is stable, so events
  with equal times keep the order in which they were pushed; \<open>sort_key\<close> is the stable
  insertion sort.
\<close>

definition parseMidiFile :: "u8 list \<Rightarrow> (error + AppEvent list) option" where
  "parseMidiFile view =
     (case bindE (getUint8 view 0) (\<lambda>c0.
           bindE (getUint8 view 1) (\<lambda>c1.
           bindE (getUint8 view 2) (\<lambda>c2.
           bindE (getUint8 view 3) (\<lambda>c3.
             if [c0, c1, c2, c3] \<noteq> [0x4D, 0x54, 0x68, 0x64] then Inl InvalidMidiHeader
             else
               bindE (getUint16 view 8) (\<lambda>format.
               bindE (getUint16 view 10) (\<lambda>numTracks.
               bindE (getUint16 view 12) (\<lambda>timeDivision.
                 Inr (numTracks, if js_and timeDivision 0x8000 = 0 then timeDivision else 480)))))))) of
        Inl e \<Rightarrow> Some (Inl e)
      | Inr (numTracks, ppq) \<Rightarrow>
          (case parse_tracks view ppq (nat numTracks)
                  \<lparr>cursor = 14, usPerBeat = 500000, events = [], currentTimeTicks = 0,
                   currentTimeMs = 0, lastStatus = 0\<rparr> of
             None \<Rightarrow> None
           | Some (Inl e) \<Rightarrow> Some (Inl e)
           | Some (Inr st) \<Rightarrow> Some (Inr (sort_key time (events st)))))"

subsection \<open>The comparator of the library-backed \<open>parseMidiFile\<close>\<close>

text \<open>
  The other \<open>parseMidiFile\<close> of services/midiIO.ts leaves the parsing to a MIDI library
  and sorts the events with this comparator: within a tenth of a millisecond the event
  type decides, Off before On.
\<close>

definition compare_events :: "AppEvent \<Rightarrow> AppEvent \<Rightarrow> real" where
  "compare_events a b =
     (if \<bar>time a - time b\<bar> < 0.1
      then (let typeA = (if type a = Off then 0 else 1);
                typeB = (if type b = Off then 0 else 1)
            in typeA - typeB)
      else time a - time b)"

section \<open>The encoder (services/midiIO.ts, hand-written \<open>generateMidiFile\<close>)\<close>

definition PPQ :: int where
  "PPQ = 480"

definition BPM :: int where
  "BPM = 120"

definition MS_PER_TICK :: real where
  "MS_PER_TICK = 60000 / real_of_int (BPM * PPQ)"

text \<open>\<open>Math.round\<close> rounds to the nearest integer, a half towards \<open>+\<infinity>\<close>.\<close>

definition Math_round :: "real \<Rightarrow> int" where
  "Math_round x = \<lfloor>x + 1 / 2\<rfloor>"

text \<open>\<open>evt.velocity || 80\<close>: a missing velocity and the velocity 0 both give 80.\<close>

definition velocity_or_80 :: "int option \<Rightarrow> int" where
  "velocity_or_80 v = (case v of None \<Rightarrow> 80 | Some x \<Rightarrow> if x = 0 then 80 else x)"

text \<open>
  The body of \<open>sortedEvents.forEach\<close>, with \<open>trackBytes\<close> and \<open>lastTime\<close> passed along.
  The delta time is pushed before the note name is looked up, and \<open>return\<close> on an unknown
  name leaves the round with the delta alone. \<open>None\<close> is a \<open>writeVarInt\<close> that never
  returns.
\<close>

fun encode_events :: "AppEvent list \<Rightarrow> real \<Rightarrow> int list \<Rightarrow> int list option" where
  "encode_events [] lastTime trackBytes = Some trackBytes"
| "encode_events (evt # evts) lastTime trackBytes =
     (let deltaMs = time evt - lastTime;
          deltaTicks = Math_round (deltaMs / MS_PER_TICK)
      in case writeVarInt deltaTicks of
           None \<Rightarrow> None
         | Some delta \<Rightarrow>
             (let trackBytes1 = trackBytes @ delta in
              case NOTE_TO_MIDI (noteName evt) of
                None \<Rightarrow> encode_events evts (time evt) trackBytes1
              | Some midiNum0 \<Rightarrow>
                  (let midiNum = max 0 (min 127 (midiNum0 + transpose evt)) in
                   if type evt = On
                   then encode_events evts (time evt)
                          (trackBytes1 @ [js_or 0x90 0, midiNum, velocity_or_80 (velocity evt)])
                   else encode_events evts (time evt)
                          (trackBytes1 @ [js_or 0x80 0, midiNum, 0]))))"

definition generateMidiFile :: "AppEvent list \<Rightarrow> u8 list option" where
  "generateMidiFile evs =
     (case encode_events (sort_key time evs) 0 [] of
        None \<Rightarrow> None
      | Some trackBytes0 \<Rightarrow>
          (let trackBytes = trackBytes0 @ [0x00, 0xFF, 0x2F, 0x00];
               header = [0x4D, 0x54, 0x68, 0x64,
                         0x00, 0x00, 0x00, 0x06,
                         0x00, 0x00,
                         0x00, 0x01,
                         js_and (js_sar PPQ 8) 0xFF, js_and PPQ 0xFF];
               n = int (length trackBytes);
               trackHeader = [0x4D, 0x54, 0x72, 0x6B,
                              js_and (js_sar n 24) 0xFF,
                              js_and (js_sar n 16) 0xFF,
                              js_and (js_sar n 8) 0xFF,
                              js_and n 0xFF]
           in Some (Uint8Array (header @ trackHeader @ trackBytes))))"

section \<open>The encoder (services/midiIO.ts, library-backed \<open>generateMidiFile\<close>)\<close>

text \<open>
  This version pairs the On and Off events into notes and hands each note to the MIDI
  library with \<open>track.addNote\<close>; the library, which is not part of the repository, writes
  the bytes. The model stops at the list of notes handed over. \<open>pendingNotes\<close> is keyed by
  the unclamped pitch \<open>rawMidi + transpose\<close>.
\<close>

record Note =
  midi :: int
  noteTime :: real
  duration :: real
  noteVelocity :: real

record Pending =
  startTime :: real
  pendingVelocity :: real

fun pair_events :: "AppEvent list \<Rightarrow> (int \<rightharpoonup> Pending) \<Rightarrow> Note list \<Rightarrow> Note list" where
  "pair_events [] pendingNotes notes = notes"
| "pair_events (evt # evts) pendingNotes notes =
     (let rawMidi = noteToMidi (noteName evt);
          finalMidi = rawMidi + transpose evt;
          clampedMidi = max 0 (min 127 finalMidi);
          key = finalMidi
      in if type evt = On
         then pair_events evts
                (pendingNotes(key \<mapsto> \<lparr>startTime = time evt / 1000,
                     pendingVelocity = real_of_int (velocity_or_80 (velocity evt)) / 127\<rparr>))
                notes
         else (case pendingNotes key of
                 None \<Rightarrow> pair_events evts pendingNotes notes
               | Some pending \<Rightarrow>
                   (let endTime = time evt / 1000;
                        duration0 = endTime - startTime pending;
                        duration = (if duration0 \<le> 0 then 0.05 else duration0)
                    in pair_events evts (pendingNotes(key := None))
                         (notes @ [\<lparr>midi = clampedMidi, noteTime = startTime pending,
                                    duration = duration, noteVelocity = pendingVelocity pending\<rparr>]))))"

definition generateMidiFile_notes :: "AppEvent list \<Rightarrow> Note list" where
  "generateMidiFile_notes evs = pair_events (sort_key time evs) Map.empty []"

section \<open>The audio engine (services/audioEngine.ts)\<close>

datatype SustainLevel = OFF | SHORT | LONG

datatype MetronomeSound = beep | click | woodblock

text \<open>
  What the engine asks of the Web Audio context is kept as a log: a buffer source node
  started (node number, sample played, distance in semitones to the sample, gain, start
  time), a source node faded out and stopped (node number, stop time), and a metronome
  sound scheduled (sound, time).
\<close>

datatype audio_op =
    SourceStart nat string int real real
  | SourceStop nat real
  | MetronomeTick MetronomeSound real

text \<open>
  The fields of the class. \<open>ctx\<close> and \<open>masterGain\<close> say whether the object is there
  (not \<open>null\<close>); \<open>buffers\<close> keeps the keys of the sample map in insertion order;
  \<open>activeSources\<close> maps a key to the number of the source node stored under it;
  \<open>created\<close> counts the source nodes created so far and numbers the next one;
  \<open>timerID\<close> says whether a timer of the metronome is pending.
\<close>

record AudioEngine =
  ctx :: bool
  masterGain :: bool
  isLoaded :: bool
  buffers :: "string list"
  activeSources :: "string \<rightharpoonup> nat"
  sustainLevel :: SustainLevel
  currentInstrument :: string
  created :: nat
  ops :: "audio_op list"
  nextNoteTime :: real
  timerID :: bool
  isMetronomePlaying :: bool
  bpm :: real
  metronomeSound :: MetronomeSound

definition scheduleAheadTime :: real where
  "scheduleAheadTime = 0.1"

subsection \<open>Metronome\<close>

definition setBPM :: "real \<Rightarrow> AudioEngine \<Rightarrow> AudioEngine" where
  "setBPM b s = s\<lparr>bpm := b\<rparr>"

text \<open>
  \<open>60.0 / this.bpm\<close> is the division of real numbers; for \<open>bpm = 0\<close> JavaScript computes
  \<open>Infinity\<close>, which this model does not represent.
\<close>

definition nextNextNoteTime :: "AudioEngine \<Rightarrow> AudioEngine" where
  "nextNextNoteTime s = (let secondsPerBeat = 60 / bpm s in s\<lparr>nextNoteTime := nextNoteTime s + secondsPerBeat\<rparr>)"

definition scheduleMetronomeTick :: "real \<Rightarrow> AudioEngine \<Rightarrow> AudioEngine" where
  "scheduleMetronomeTick t s =
     (if \<not> ctx s \<or> \<not> masterGain s then s
      else s\<lparr>ops := ops s @ [MetronomeTick (metronomeSound s) t]\<rparr>)"

text \<open>
  The \<open>while\<close> loop of \<open>scheduler\<close>, at the clock reading \<open>now\<close>. With a negative \<open>bpm\<close>
  the next tick time never reaches the horizon: \<open>None\<close> is a loop that never returns.
\<close>

partial_function (option) scheduler_loop :: "real \<Rightarrow> AudioEngine \<Rightarrow> AudioEngine option" where
  "scheduler_loop now s =
     (if nextNoteTime s < now + scheduleAheadTime
      then scheduler_loop now (nextNextNoteTime (scheduleMetronomeTick (nextNoteTime s) s))
      else Some s)"

definition scheduler :: "real \<Rightarrow> AudioEngine \<Rightarrow> AudioEngine option" where
  "scheduler now s =
     (if \<not> ctx s then Some s
      else (case scheduler_loop now s of
              None \<Rightarrow> None
            | Some s' \<Rightarrow> Some (if isMetronomePlaying s' then s'\<lparr>timerID := True\<rparr> else s')))"

definition startMetronome :: "real \<Rightarrow> real \<Rightarrow> AudioEngine \<Rightarrow> AudioEngine option" where
  "startMetronome now b s =
     (if isMetronomePlaying s then Some s
      else (let s1 = s\<lparr>bpm := b, isMetronomePlaying := True\<rparr> in
            if ctx s1 then scheduler now (s1\<lparr>nextNoteTime := now + 0.05\<rparr>) else Some s1))"

definition stopMetronome :: "AudioEngine \<Rightarrow> AudioEngine" where
  "stopMetronome s = s\<lparr>isMetronomePlaying := False, timerID := False\<rparr>"

text \<open>The timer callbacks that follow one another, each at its own clock reading.\<close>

fun scheduler_calls :: "real list \<Rightarrow> AudioEngine \<Rightarrow> AudioEngine option" where
  "scheduler_calls [] s = Some s"
| "scheduler_calls (now # nows) s =
     (case scheduler now s of None \<Rightarrow> None | Some s' \<Rightarrow> scheduler_calls nows s')"

text \<open>
  Words for the statements about the metronome: \<open>n\<close> ticks on the grid that starts at
  \<open>t0\<close> with the spacing \<open>c\<close>, as the log shows them (nothing when the context or the
  master gain is missing).
\<close>

definition ticks_from :: "AudioEngine \<Rightarrow> real \<Rightarrow> real \<Rightarrow> nat \<Rightarrow> audio_op list" where
  "ticks_from s t0 c n =
     (if ctx s \<and> masterGain s
      then map (\<lambda>i. MetronomeTick (metronomeSound s) (t0 + real i * c)) [0..<n]
      else [])"

subsection \<open>Notes\<close>

definition mapKey :: "string \<Rightarrow> int \<Rightarrow> string" where
  "mapKey nt tr = nt @ ''_'' @ string_of_int tr"

definition sharpMap :: "string \<rightharpoonup> string" where
  "sharpMap = [''Db'' \<mapsto> ''C#'', ''Eb'' \<mapsto> ''D#'', ''Gb'' \<mapsto> ''F#'', ''Ab'' \<mapsto> ''G#'', ''Bb'' \<mapsto> ''A#'']"

definition getNoteNumber :: "string \<Rightarrow> int" where
  "getNoteNumber nt =
     (case note_match nt of
        None \<Rightarrow> 0
      | Some (name0, octStr) \<Rightarrow>
          let name = (if name0 \<noteq> [] \<and> last name0 = CHR ''b''
                      then (case sharpMap name0 of Some sharp \<Rightarrow> sharp | None \<Rightarrow> name0)
                      else name0);
              index = indexOf name NOTE_NAMES;
              octave = parseInt octStr
          in octave * 12 + index + 12)"

text \<open>
  \<open>getClosestBuffer\<close>: \<open>minDist\<close> starts at \<open>Infinity\<close> (here \<open>None\<close>) and \<open>closestNote\<close>
  at the empty string; the result is \<open>null\<close> (here \<open>None\<close>) when there is no sample or the
  closest name is empty.
\<close>

fun closest_loop :: "int \<Rightarrow> string list \<Rightarrow> int option \<Rightarrow> string \<Rightarrow> int option \<times> string" where
  "closest_loop m [] minDist closestNote = (minDist, closestNote)"
| "closest_loop m (nt # nts) minDist closestNote =
     (let bufferMidi = getNoteNumber nt;
          dist = m - bufferMidi
      in if (case minDist of None \<Rightarrow> True | Some d \<Rightarrow> \<bar>dist\<bar> < \<bar>d\<bar>)
         then closest_loop m nts (Some dist) nt
         else closest_loop m nts minDist closestNote)"

definition getClosestBuffer :: "int \<Rightarrow> AudioEngine \<Rightarrow> (string \<times> int) option" where
  "getClosestBuffer m s =
     (if buffers s = [] then None
      else (case closest_loop m (buffers s) None [] of
              (Some d, closestNote) \<Rightarrow>
                if closestNote \<noteq> [] \<and> closestNote \<in> set (buffers s) then Some (closestNote, d) else None
            | (None, closestNote) \<Rightarrow> None))"

definition release_time :: "AudioEngine \<Rightarrow> real" where
  "release_time s =
     (let release = (if sustainLevel s = LONG then 2.0 else if sustainLevel s = SHORT then 0.5 else 0.2)
      in if (currentInstrument s = ''string_ensemble_1'' \<or> currentInstrument s = ''lead_1_square'')
            \<and> sustainLevel s = SHORT
         then 1.0 else release)"

text \<open>
  \<open>stopNote(note, transpose, when)\<close> at the clock reading \<open>now\<close>. The gain ramp and
  \<open>source.stop\<close> are one log entry; the timer that disconnects the nodes later is left out.
\<close>

definition stopNote :: "real \<Rightarrow> string \<Rightarrow> int \<Rightarrow> real \<Rightarrow> AudioEngine \<Rightarrow> AudioEngine" where
  "stopNote now nt tr when s =
     (let mk = mapKey nt tr in
      case activeSources s mk of
        None \<Rightarrow> s
      | Some src \<Rightarrow>
          if ctx s then
            (let t = (if when = 0 then now else when) in
             s\<lparr>ops := ops s @ [SourceStop src (t + release_time s)],
               activeSources := (activeSources s)(mk := None)\<rparr>)
          else s)"

text \<open>
  \<open>playNote(note, transpose, velocity, when)\<close> at the clock reading \<open>now\<close>. A missing
  velocity is the default 100.
\<close>

definition playNote :: "real \<Rightarrow> string \<Rightarrow> int \<Rightarrow> int option \<Rightarrow> real \<Rightarrow> AudioEngine \<Rightarrow> AudioEngine" where
  "playNote now nt tr vel when s =
     (if \<not> ctx s \<or> \<not> isLoaded s \<or> \<not> masterGain s then s
      else
        (let mk = mapKey nt tr;
             s1 = (if when = 0 then stopNote now nt tr 0 s else s);
             baseMidi = getNoteNumber nt
         in if baseMidi = 0 then s1
            else
              (let targetMidi = baseMidi + tr in
               case getClosestBuffer targetMidi s1 of
                 None \<Rightarrow> s1
               | Some (sample, distance) \<Rightarrow>
                   (let src = created s1;
                        velocity = (case vel of None \<Rightarrow> 100 | Some v \<Rightarrow> v);
                        normalizedVel = real_of_int (max 0 (min 127 velocity)) / 127;
                        gainValue = normalizedVel * normalizedVel;
                        startT = (if when = 0 then now else when)
                    in s1\<lparr>created := Suc src,
                          ops := ops s1 @ [SourceStart src sample distance gainValue startT],
                          activeSources := (activeSources s1)(mk \<mapsto> src)\<rparr>))))"


section \<open>The playback scheduler (the application component with the worker-driven loop)\<close>

text \<open>
  The scheduler talks to the audio engine through two calls only; the calls it makes are
  returned as values, in order, and \<open>perform\<close> runs one against the engine.
\<close>

datatype call =
    PlayNote string int "int option" real
  | StopNote string int real

fun perform :: "real \<Rightarrow> call \<Rightarrow> AudioEngine \<Rightarrow> AudioEngine" where
  "perform now (PlayNote nt tr vel when) e = playNote now nt tr vel when e"
| "perform now (StopNote nt tr when) e = stopNote now nt tr when e"

text \<open>
  The state the scheduler works on: the refs \<open>recordingRef\<close>, \<open>audioContextStartTimeRef\<close>
  (seconds of the audio clock), \<open>playbackSpeedRef\<close>, \<open>playbackStartOffsetRef\<close>
  (milliseconds), \<open>audioCursorRef\<close>, \<open>lastStaveIndexRef\<close>, \<open>isPracticeModeRef\<close>, the React
  states \<open>isPlayingBack\<close> and \<open>elapsedTime\<close> (milliseconds), and whether the worker is
  posting ticks. The sets of highlighted keys and notes, which only the display reads,
  are left out. Division by \<open>speed\<close> is the division of real numbers; the speeds the
  application offers are positive.
\<close>

record Player =
  recording :: "AppEvent list"
  audioContextStartTime :: real
  playbackSpeed :: real
  playbackStartOffset :: real
  audioCursor :: nat
  lastStaveIndex :: nat
  isPracticeMode :: bool
  isPlayingBack :: bool
  elapsedTime :: real
  workerRunning :: bool

text \<open>The track time in seconds, as \<open>runAudioScheduler\<close> and \<open>visualLoop\<close> compute it.\<close>

definition trackPlayTime :: "real \<Rightarrow> Player \<Rightarrow> real" where
  "trackPlayTime now s =
     (now - audioContextStartTime s) * playbackSpeed s + playbackStartOffset s / 1000"

definition changePlaybackSpeed :: "real \<Rightarrow> real \<Rightarrow> Player \<Rightarrow> Player" where
  "changePlaybackSpeed now newSpeed s =
     (let s1 = (if isPlayingBack s
                then (let currentTrackTimeSec = (now - audioContextStartTime s) * playbackSpeed s
                      in s\<lparr>audioContextStartTime := now - currentTrackTimeSec / newSpeed\<rparr>)
                else s)
      in s1\<lparr>playbackSpeed := newSpeed\<rparr>)"

definition pausePlayback :: "Player \<Rightarrow> Player \<times> call list" where
  "pausePlayback s = (s\<lparr>isPlayingBack := False, workerRunning := False\<rparr>, [StopNote ''C4'' 0 0])"

definition absolutePlayTime :: "Player \<Rightarrow> AppEvent \<Rightarrow> real" where
  "absolutePlayTime s evt =
     audioContextStartTime s + (time evt / 1000 - playbackStartOffset s / 1000) / playbackSpeed s"

text \<open>
  The \<open>while (nextIdx < events.length)\<close> loop of \<open>runAudioScheduler\<close>. Each call is kept
  with the index of the event it was made for.
\<close>

function schedule_loop ::
  "real \<Rightarrow> Player \<Rightarrow> real \<Rightarrow> nat \<Rightarrow> (nat \<times> call) list \<Rightarrow> nat \<times> (nat \<times> call) list" where
  "schedule_loop now s scheduleUntil nextIdx acc =
     (if nextIdx < length (recording s) then
        (let evt = recording s ! nextIdx;
             evtTimeSec = time evt / 1000
         in if evtTimeSec > scheduleUntil then (nextIdx, acc)
            else
              (let t = absolutePlayTime s evt;
                   acc' = (if type evt = On then
                             (if t > now - 0.05 then
                                (if \<not> isPracticeMode s
                                 then acc @ [(nextIdx, PlayNote (noteName evt) (transpose evt) (velocity evt) t)]
                                 else acc)
                              else acc)
                           else acc @ [(nextIdx, StopNote (noteName evt) (transpose evt) t)])
               in schedule_loop now s scheduleUntil (nextIdx + 1) acc'))
      else (nextIdx, acc))"
  by pat_completeness auto
termination
  by (relation "measure (\<lambda>(now, s, scheduleUntil, nextIdx, acc). length (recording s) - nextIdx)") auto

declare schedule_loop.simps [simp del]

text \<open>
  \<open>runAudioScheduler\<close> at the clock reading \<open>now\<close>: the new state, the calls made for
  events (with the event's index), and the calls made by \<open>pausePlayback\<close> when the end of
  the song has been passed.
\<close>

definition runAudioScheduler :: "real \<Rightarrow> Player \<Rightarrow> Player \<times> (nat \<times> call) list \<times> call list" where
  "runAudioScheduler now s =
     (if recording s = [] then (s, [], [])
      else
        (let speed = playbackSpeed s;
             tpt = trackPlayTime now s;
             scheduleUntil = tpt + 0.1 * speed;
             (nextIdx, scheduled) = schedule_loop now s scheduleUntil (audioCursor s) [];
             s1 = s\<lparr>audioCursor := nextIdx\<rparr>;
             lastEvent = last (recording s)
         in if tpt > time lastEvent / 1000 + 1.0
            then (let (s2, calls) = pausePlayback s1
                  in (s2\<lparr>elapsedTime := 0, playbackStartOffset := 0\<rparr>, scheduled, calls))
            else (s1, scheduled, [])))"

text \<open>
  The part of \<open>visualLoop\<close> that the scheduler's state depends on: the elapsed time shown
  to the user, and the index up to which events were sent to the stave.
\<close>

definition visualLoop :: "real \<Rightarrow> Player \<Rightarrow> Player" where
  "visualLoop now s =
     (if recording s = [] then s
      else
        (let currentTrackTimeMs =
               (now - audioContextStartTime s) * playbackSpeed s * 1000 + playbackStartOffset s
         in s\<lparr>elapsedTime := (if currentTrackTimeMs > 0 then currentTrackTimeMs else 0),
               lastStaveIndex := lastStaveIndex s +
                 length (takeWhile (\<lambda>e. time e \<le> currentTrackTimeMs)
                           (drop (lastStaveIndex s) (recording s)))\<rparr>))"

definition startPlayback :: "real \<Rightarrow> Player \<Rightarrow> Player" where
  "startPlayback now s =
     (if recording s = [] then s
      else
        (let lastEventTime = time (last (recording s));
             s1 = (if elapsedTime s \<ge> lastEventTime
                   then s\<lparr>elapsedTime := 0, playbackStartOffset := 0, audioCursor := 0,
                          lastStaveIndex := 0\<rparr>
                   else (let idx = length (takeWhile (\<lambda>e. time e < elapsedTime s) (recording s))
                         in s\<lparr>playbackStartOffset := elapsedTime s, audioCursor := idx,
                               lastStaveIndex := idx\<rparr>))
         in s1\<lparr>audioContextStartTime := now, isPlayingBack := True, workerRunning := True\<rparr>))"

definition handleStopFullReset :: "Player \<Rightarrow> Player \<times> call list" where
  "handleStopFullReset s =
     (let (s1, calls) = pausePlayback s
      in (s1\<lparr>elapsedTime := 0, playbackStartOffset := 0, audioCursor := 0, lastStaveIndex := 0\<rparr>,
          calls))"

text \<open>
  What can happen while a recording is being played: the worker posts a tick, and the
  user picks a speed. A tick posted after the worker was told to stop is not delivered.
\<close>

datatype action = Tick real | SetSpeed real real

fun step :: "action \<Rightarrow> Player \<Rightarrow> Player \<times> (nat \<times> call) list \<times> call list" where
  "step (Tick now) s = (if workerRunning s then runAudioScheduler now s else (s, [], []))"
| "step (SetSpeed now newSpeed) s = (changePlaybackSpeed now newSpeed s, [], [])"

fun run :: "action list \<Rightarrow> Player \<Rightarrow> Player \<times> (nat \<times> call) list" where
  "run [] s = (s, [])"
| "run (a # as) s =
     (let (s1, scheduled, calls) = step a s;
          (s2, rest) = run as s1
      in (s2, scheduled @ rest))"

text \<open>
  Words for the statements about the loop: the call the loop makes for the event at
  index \<open>k\<close>, whether the loop, reaching that event at the clock reading \<open>now\<close>, makes the
  call at all (an Off event always; an On event when its play time is later than
  \<open>now - 0.05\<close> and practice mode is off), and whether a call is the call of an event.
\<close>

definition event_call :: "Player \<Rightarrow> nat \<Rightarrow> call" where
  "event_call s k =
     (let evt = recording s ! k; t = absolutePlayTime s evt
      in if type evt = On then PlayNote (noteName evt) (transpose evt) (velocity evt) t
         else StopNote (noteName evt) (transpose evt) t)"

definition handed :: "real \<Rightarrow> Player \<Rightarrow> nat \<Rightarrow> bool" where
  "handed now s k =
     (let evt = recording s ! k
      in type evt = Off \<or> (absolutePlayTime s evt > now - 0.05 \<and> \<not> isPracticeMode s))"

fun call_of_event :: "AppEvent \<Rightarrow> call \<Rightarrow> bool" where
  "call_of_event evt (PlayNote nt tr vel t) =
     (type evt = On \<and> nt = noteName evt \<and> tr = transpose evt \<and> vel = velocity evt)"
| "call_of_event evt (StopNote nt tr t) =
     (type evt = Off \<and> nt = noteName evt \<and> tr = transpose evt)"

text \<open>What one step of a session does to the cursor, and which calls it makes.\<close>

definition step_ok :: "Player \<Rightarrow> Player \<Rightarrow> (nat \<times> call) list \<Rightarrow> bool" where
  "step_ok s s1 sched \<longleftrightarrow>
     recording s1 = recording s \<and> audioCursor s \<le> audioCursor s1 \<and>
     (audioCursor s < audioCursor s1 \<longrightarrow> audioCursor s1 \<le> length (recording s)) \<and>
     (\<exists>now s0. recording s0 = recording s \<and>
        sched = map (\<lambda>k. (k, event_call s0 k)) (filter (handed now s0) [audioCursor s..<audioCursor s1]))"

section \<open>Concrete inputs\<close>

text \<open>
  The file of the concrete scenario: the 14 header bytes (format 0, one track, 480 ticks
  per quarter note), the track chunk header with length 13, and the track: delta 0,
  Note-On 60 velocity 100; delta 240, Note-Off 60 velocity 0; delta 0, End-of-Track.
\<close>

definition scenario_file :: "u8 list" where
  "scenario_file =
     [0x4D, 0x54, 0x68, 0x64, 0x00, 0x00, 0x00, 0x06, 0x00, 0x00, 0x00, 0x01, 0x01, 0xE0,
      0x4D, 0x54, 0x72, 0x6B, 0x00, 0x00, 0x00, 0x0D,
      0x00, 0x90, 0x3C, 0x64,
      0x81, 0x70, 0x80, 0x3C, 0x00,
      0x00, 0xFF, 0x2F, 0x00]"

text \<open>
  A legato file: D4 is struck at tick 0; at tick 480 C4 is struck (delta 480, Note-On 60)
  and D4 is released at the same tick (delta 0, Note-Off 62); C4 is released at tick 960.
\<close>

definition legato_file :: "u8 list" where
  "legato_file =
     [0x4D, 0x54, 0x68, 0x64, 0x00, 0x00, 0x00, 0x06, 0x00, 0x00, 0x00, 0x01, 0x01, 0xE0,
      0x4D, 0x54, 0x72, 0x6B, 0x00, 0x00, 0x00, 0x16,
      0x00, 0x90, 0x3E, 0x64,
      0x83, 0x60, 0x90, 0x3C, 0x64,
      0x00, 0x80, 0x3E, 0x00,
      0x83, 0x60, 0x80, 0x3C, 0x00,
      0x00, 0xFF, 0x2F, 0x00]"

text \<open>A recording that ends while C4 is still held: one On event and no Off event.\<close>

definition held_note :: "AppEvent list" where
  "held_note = [\<lparr>time = 0, type = On, noteName = ''C4'', transpose = 0,
                 instrumentId = ''salamander'', velocity = Some 100\<rparr>]"

text \<open>
  A recording of one note: D4 is struck at 0 ms with velocity 100 and released at
  2000 ms. The player has not started yet; the engine is loaded with three samples.
\<close>

definition demo_player :: Player where
  "demo_player =
     \<lparr>recording =
        [\<lparr>time = 0, type = On, noteName = ''D4'', transpose = 0,
           instrumentId = ''salamander'', velocity = Some 100\<rparr>,
         \<lparr>time = 2000, type = Off, noteName = ''D4'', transpose = 0,
           instrumentId = ''salamander'', velocity = None\<rparr>],
      audioContextStartTime = 0, playbackSpeed = 1, playbackStartOffset = 0,
      audioCursor = 0, lastStaveIndex = 0, isPracticeMode = False,
      isPlayingBack = False, elapsedTime = 0, workerRunning = False\<rparr>"

definition demo_engine :: AudioEngine where
  "demo_engine =
     \<lparr>ctx = True, masterGain = True, isLoaded = True, buffers = [''A0'', ''C4'', ''D#4''],
      activeSources = Map.empty, sustainLevel = SHORT, currentInstrument = ''salamander'',
      created = 0, ops = [], nextNoteTime = 0, timerID = False, isMetronomePlaying = False,
      bpm = 120, metronomeSound = beep\<rparr>"

text \<open>
  Playback of the recording is started at the clock reading 10 and the first tick runs
  at once: \<open>playing_player\<close> is the player after that tick, \<open>sounding_engine\<close> the engine
  after the calls of that tick.
\<close>

definition playing_player :: Player where
  "playing_player = fst (runAudioScheduler 10 (startPlayback 10 demo_player))"

definition sounding_engine :: AudioEngine where
  "sounding_engine =
     fold (perform 10) (map snd (fst (snd (runAudioScheduler 10 (startPlayback 10 demo_player)))))
       demo_engine"


text \<open>
  Playback is resumed at the clock reading 10 from the position 500 ms, and the display
  is refreshed at the clock reading 12.6, when the track time is 3100 ms.
\<close>

definition resumed_player :: Player where
  "resumed_player = visualLoop (63 / 5) (startPlayback 10 (demo_player\<lparr>elapsedTime := 500\<rparr>))"

text \<open>The engine with the metronome running at 120 beats per minute; the next tick is due at 10.05.\<close>

definition ticking_engine :: AudioEngine where
  "ticking_engine = demo_engine\<lparr>isMetronomePlaying := True, timerID := True, nextNoteTime := 201 / 20\<rparr>"

text \<open>
  A recording whose note is struck at 50 ms. Playback is started at the clock reading
  10, the first tick runs at once, the display is refreshed at 10.02 (track time 20 ms),
  and the user pauses: \<open>paused_early\<close> is the player at that point.
\<close>

definition ahead_player :: Player where
  "ahead_player =
     demo_player\<lparr>recording :=
        [\<lparr>time = 50, type = On, noteName = ''D4'', transpose = 0,
           instrumentId = ''salamander'', velocity = Some 100\<rparr>,
         \<lparr>time = 2000, type = Off, noteName = ''D4'', transpose = 0,
           instrumentId = ''salamander'', velocity = None\<rparr>]\<rparr>"

definition paused_early :: Player where
  "paused_early =
     fst (pausePlayback (visualLoop (501 / 50) (fst (runAudioScheduler 10 (startPlayback 10 ahead_player)))))"

section \<open>Variable-length quantities: round trip\<close>


lemma ToInt32_id: "0 \<le> x \<Longrightarrow> x < 2147483648 \<Longrightarrow> ToInt32 x = x"
  by (simp add: ToInt32_def signed_take_bit_int_eq_self)

lemma js_and_7F: "0 \<le> x \<Longrightarrow> x < 2147483648 \<Longrightarrow> js_and x 0x7F = x mod 128"
  using take_bit_eq_mask [of 7 x]
  by (simp add: js_and_def ToInt32_id take_bit_eq_mod mask_eq_exp_minus_1)

lemma js_and_FF: "0 \<le> x \<Longrightarrow> x < 2147483648 \<Longrightarrow> js_and x 0xFF = x mod 256"
  using take_bit_eq_mask [of 8 x]
  by (simp add: js_and_def ToInt32_id take_bit_eq_mod mask_eq_exp_minus_1)

lemma js_sar_7: "0 \<le> x \<Longrightarrow> x < 2147483648 \<Longrightarrow> js_sar x 7 = x div 128"
  by (simp add: js_sar_def ToInt32_id drop_bit_eq_div)

lemma js_sar_8: "0 \<le> x \<Longrightarrow> x < 2147483648 \<Longrightarrow> js_sar x 8 = x div 256"
  by (simp add: js_sar_def ToInt32_id drop_bit_eq_div)

lemma js_shl_8: "0 \<le> x \<Longrightarrow> x < 8388608 \<Longrightarrow> js_shl x 8 = x * 256"
  by (simp add: js_shl_def ToInt32_id push_bit_eq_mult)

lemma js_shl_7: "0 \<le> x \<Longrightarrow> x < 16777216 \<Longrightarrow> js_shl x 7 = x * 128"
  by (simp add: js_shl_def ToInt32_id push_bit_eq_mult)

lemma or_low: "0 \<le> y \<Longrightarrow> y < 2 ^ n \<Longrightarrow> (x * 2 ^ n) OR y = x * 2 ^ n + (y::int)"
proof -
  assume a: "0 \<le> y" "y < 2 ^ n"
  have "take_bit n y = y" using a by (simp add: take_bit_int_eq_self)
  then have "\<And>m. bit y m \<Longrightarrow> m < n" by (metis bit_take_bit_iff)
  then have "\<And>m. \<not> bit (push_bit n x) m \<or> \<not> bit y m"
    by (fastforce simp add: bit_push_bit_iff)
  then have "push_bit n x + y = push_bit n x OR y" by (rule disjunctive_add)
  then show ?thesis by (simp add: push_bit_eq_mult)
qed

lemma js_or_256: "0 \<le> x \<Longrightarrow> x < 8388608 \<Longrightarrow> 0 \<le> y \<Longrightarrow> y < 256 \<Longrightarrow> js_or (x * 256) y = x * 256 + y"
  using or_low [of y 8 x] by (simp add: js_or_def ToInt32_id)

lemma js_or_128: "0 \<le> x \<Longrightarrow> x < 16777216 \<Longrightarrow> 0 \<le> y \<Longrightarrow> y < 128 \<Longrightarrow> js_or (x * 128) y = x * 128 + y"
  using or_low [of y 7 x] by (simp add: js_or_def ToInt32_id)

lemma js_or_80: "0 \<le> y \<Longrightarrow> y < 128 \<Longrightarrow> js_or y 0x80 = y + 128"
  using or_low [of y 7 1] by (simp add: js_or_def ToInt32_id or.commute)

lemma js_and_80: "0 \<le> x \<Longrightarrow> x < 2147483648 \<Longrightarrow> (js_and x 0x80 \<noteq> 0) = odd (x div 128)"
  using and_exp_eq_0_iff_not_bit [of x 7]
  by (simp add: js_and_def ToInt32_id bit_iff_odd)

lemma pack_step:
  assumes "0 \<le> val" "val < 2147483648" "128 \<le> val" "0 \<le> buffer" "buffer < 8388608"
  shows "writeVarInt_pack val buffer =
         writeVarInt_pack (val div 128) (buffer * 256 + (val div 128 mod 128 + 128))"
proof -
  have n: "val div 128 \<noteq> 0" "0 \<le> val div 128" "val div 128 < 2147483648"
    using assms by auto
  have m: "0 \<le> val div 128 mod 128" "val div 128 mod 128 < 128" by auto
  have "js_or (js_and (val div 128) 0x7F) 0x80 = val div 128 mod 128 + 128"
    using n by (simp add: js_and_7F js_or_80)
  moreover have "js_or (js_shl buffer 8) (val div 128 mod 128 + 128)
      = buffer * 256 + (val div 128 mod 128 + 128)"
    using assms m by (simp add: js_shl_8 js_or_256)
  ultimately show ?thesis
    using assms n by (subst writeVarInt_pack.simps) (simp add: js_sar_7 Let_def)
qed

lemma pack_stop:
  assumes "0 \<le> val" "val < 128"
  shows "writeVarInt_pack val buffer = Some buffer"
  using assms by (subst writeVarInt_pack.simps) (simp add: js_sar_7 Let_def)

lemma emit_step:
  assumes "0 \<le> buffer" "buffer < 2147483648" "odd (buffer div 128)"
  shows "writeVarInt_emit buffer bytes = writeVarInt_emit (buffer div 256) (bytes @ [buffer mod 256])"
  using assms by (subst writeVarInt_emit.simps) (simp add: js_and_80 js_and_FF js_sar_8 Let_def)

lemma emit_stop:
  assumes "0 \<le> buffer" "buffer < 2147483648" "even (buffer div 128)"
  shows "writeVarInt_emit buffer bytes = Some (bytes @ [buffer mod 256])"
  using assms by (subst writeVarInt_emit.simps) (simp add: js_and_80 js_and_FF js_sar_8 Let_def)

lemma emit_cont:
  assumes "0 \<le> x" "x < 8388608" "0 \<le> g" "g < 128"
  shows "writeVarInt_emit (x * 256 + (g + 128)) bytes = writeVarInt_emit x (bytes @ [g + 128])"
proof -
  have "(x * 256 + (g + 128)) div 128 = 2 * x + 1" using assms by linarith
  then have o: "odd ((x * 256 + (g + 128)) div 128)" by simp
  have d: "(x * 256 + (g + 128)) div 256 = x" "(x * 256 + (g + 128)) mod 256 = g + 128"
    using assms by auto
  show ?thesis using assms by (subst emit_step) (simp_all add: o d)
qed

lemma emit_last:
  assumes "0 \<le> d" "d < 128"
  shows "writeVarInt_emit d bytes = Some (bytes @ [d])"
  using assms by (subst emit_stop) simp_all

lemma writeVarInt_1:
  assumes "0 \<le> v" "v < 128"
  shows "writeVarInt v = Some [v]"
  using assms by (simp add: writeVarInt_def pack_stop js_and_7F emit_last)

lemma writeVarInt_2:
  assumes "128 \<le> v" "v < 16384"
  shows "writeVarInt v = Some [v div 128 + 128, v mod 128]"
proof -
  have "writeVarInt_pack v (js_and v 0x7F) = Some (v mod 128 * 256 + (v div 128 + 128))"
    using assms by (simp add: js_and_7F pack_step pack_stop)
  then show ?thesis using assms
    by (simp add: writeVarInt_def emit_cont emit_last)
qed

lemma writeVarInt_3:
  assumes "16384 \<le> v" "v < 2097152"
  shows "writeVarInt v = Some [v div 16384 + 128, v div 128 mod 128 + 128, v mod 128]"
proof -
  define b1 where "b1 = v mod 128 * 256 + (v div 128 mod 128 + 128)"
  have b1: "0 \<le> b1" "b1 < 8388608" unfolding b1_def by auto
  have "writeVarInt_pack v (js_and v 0x7F) = writeVarInt_pack (v div 128) b1"
    using assms by (simp add: js_and_7F pack_step b1_def)
  also have "\<dots> = writeVarInt_pack (v div 128 div 128) (b1 * 256 + (v div 128 div 128 mod 128 + 128))"
    using assms b1 by (intro pack_step) auto
  also have "\<dots> = Some (b1 * 256 + (v div 16384 + 128))"
    using assms by (simp add: pack_stop div_mult2_eq [symmetric])
  finally have p: "writeVarInt_pack v (js_and v 0x7F) = Some (b1 * 256 + (v div 16384 + 128))" .
  have "writeVarInt_emit (b1 * 256 + (v div 16384 + 128)) [] = writeVarInt_emit b1 [v div 16384 + 128]"
    using assms b1 by (subst emit_cont) auto
  also have "\<dots> = Some [v div 16384 + 128, v div 128 mod 128 + 128, v mod 128]"
    unfolding b1_def by (simp add: emit_cont emit_last)
  finally show ?thesis by (simp add: writeVarInt_def p)
qed

lemma writeVarInt_4:
  assumes "2097152 \<le> v" "v < 268435456"
  shows "writeVarInt v = Some [v div 2097152 + 128, v div 16384 mod 128 + 128, v div 128 mod 128 + 128, v mod 128]"
proof -
  define b1 where "b1 = v mod 128 * 256 + (v div 128 mod 128 + 128)"
  define b2 where "b2 = b1 * 256 + (v div 16384 mod 128 + 128)"
  have b1: "0 \<le> b1" "b1 < 32768" unfolding b1_def by auto
  have b2: "0 \<le> b2" "b2 < 8388608" using b1 unfolding b2_def by auto
  have "writeVarInt_pack v (js_and v 0x7F) = writeVarInt_pack (v div 128) b1"
    using assms by (simp add: js_and_7F pack_step b1_def)
  also have "\<dots> = writeVarInt_pack (v div 128 div 128) (b1 * 256 + (v div 128 div 128 mod 128 + 128))"
    using assms b1 by (intro pack_step) auto
  also have "\<dots> = writeVarInt_pack (v div 16384) b2"
  proof -
    have "v div 128 div 128 = v div 16384" by linarith
    then show ?thesis by (simp add: b2_def)
  qed
  also have "\<dots> = writeVarInt_pack (v div 16384 div 128) (b2 * 256 + (v div 16384 div 128 mod 128 + 128))"
    using assms b2 by (intro pack_step) auto
  also have "\<dots> = Some (b2 * 256 + (v div 2097152 + 128))"
    using assms by (simp add: pack_stop div_mult2_eq [symmetric])
  finally have p: "writeVarInt_pack v (js_and v 0x7F) = Some (b2 * 256 + (v div 2097152 + 128))" .
  have "writeVarInt_emit (b2 * 256 + (v div 2097152 + 128)) [] = writeVarInt_emit b2 [v div 2097152 + 128]"
    using assms b2 by (subst emit_cont) auto
  also have "\<dots> = writeVarInt_emit b1 [v div 2097152 + 128, v div 16384 mod 128 + 128]"
    unfolding b2_def using b1 by (subst emit_cont) auto
  also have "\<dots> = Some [v div 2097152 + 128, v div 16384 mod 128 + 128, v div 128 mod 128 + 128, v mod 128]"
    unfolding b1_def by (simp add: emit_cont emit_last)
  finally show ?thesis by (simp add: writeVarInt_def p)
qed


lemma read_cont:
  assumes "0 \<le> offset + int len" "offset + int len < int (length view)"
    "uint (view ! nat (offset + int len)) = g + 128"
    "0 \<le> g" "g < 128" "0 \<le> result" "result < 16777216"
  shows "readVarInt_loop view offset result len = readVarInt_loop view offset (result * 128 + g) (Suc len)"
proof -
  have "(g + 128) mod 128 = g" "(g + 128) div 128 = 1" using assms by auto
  then show ?thesis using assms
    by (subst readVarInt_loop.simps) (simp add: Let_def js_and_7F js_and_80 js_shl_7 js_or_128)
qed

lemma read_last:
  assumes "0 \<le> offset + int len" "offset + int len < int (length view)"
    "uint (view ! nat (offset + int len)) = d"
    "0 \<le> d" "d < 128" "0 \<le> result" "result < 16777216"
  shows "readVarInt_loop view offset result len = Inr (result * 128 + d, Suc len)"
  using assms
  by (subst readVarInt_loop.simps) (simp add: Let_def js_and_7F js_and_80 js_shl_7 js_or_128)

lemma uint_byte: "0 \<le> k \<Longrightarrow> k < 256 \<Longrightarrow> uint (word_of_int k :: u8) = k"
  by (simp add: uint_word_of_int_eq take_bit_int_eq_self)

lemma length_Uint8Array: "length (Uint8Array bs) = length bs"
  by (simp add: Uint8Array_def)

lemma uint_view_nth:
  "k < length bs \<Longrightarrow> 0 \<le> bs ! k \<Longrightarrow> bs ! k < 256 \<Longrightarrow>
   uint ((pre @ Uint8Array bs @ suf) ! nat (int (length pre) + int k)) = bs ! k"
  by (simp add: nth_append Uint8Array_def uint_byte nat_add_distrib)

lemmas view_nths =
  uint_view_nth [where k = 0, simplified]
  uint_view_nth [where k = "Suc 0", simplified]
  uint_view_nth [where k = "Suc (Suc 0)", simplified]
  uint_view_nth [where k = "Suc (Suc (Suc 0))", simplified]

text \<open>
  C7. For every integer \<open>v\<close> with \<open>0 \<le> v < 2 ^ 28\<close>, \<open>writeVarInt\<close> returns, and returns
  at most four bytes; \<open>readVarInt\<close> on those bytes, at any offset of a buffer that holds
  them, returns \<open>v\<close> and the number of bytes.
\<close>

theorem varint_roundtrip:
  assumes "0 \<le> v" "v < 2 ^ 28"
  shows "\<exists>bs. writeVarInt v = Some bs \<and> length bs \<le> 4 \<and>
           readVarInt (pre @ Uint8Array bs @ suf) (int (length pre)) = Inr (v, length bs)"
proof -
  let ?rd = "\<lambda>bs. readVarInt (pre @ Uint8Array bs @ suf) (int (length pre))"
  consider "v < 128" | "128 \<le> v" "v < 16384" | "16384 \<le> v" "v < 2097152"
    | "2097152 \<le> v" "v < 268435456" using assms by fastforce
  then show ?thesis
  proof cases
    case 1
    have "?rd [v] = Inr (v, 1)"
      unfolding readVarInt_def using assms 1
      by (subst read_last [where d = v]) (simp_all add: view_nths length_Uint8Array)
    then show ?thesis using assms 1 by (simp add: writeVarInt_1)
  next
    case 2
    let ?bs = "[v div 128 + 128, v mod 128]"
    have "readVarInt_loop (pre @ Uint8Array ?bs @ suf) (int (length pre)) 0 0
        = readVarInt_loop (pre @ Uint8Array ?bs @ suf) (int (length pre)) (0 * 128 + v div 128) (Suc 0)"
      using 2 by (intro read_cont) (simp_all add: view_nths length_Uint8Array)
    also have "\<dots> = Inr (v div 128 * 128 + v mod 128, Suc (Suc 0))"
      using 2 by (subst read_last [where d = "v mod 128"]) (simp_all add: view_nths length_Uint8Array)
    finally have "?rd ?bs = Inr (v, 2)" by (simp add: readVarInt_def)
    then show ?thesis using 2 by (simp add: writeVarInt_2)
  next
    case 3
    let ?bs = "[v div 16384 + 128, v div 128 mod 128 + 128, v mod 128]"
    let ?view = "pre @ Uint8Array ?bs @ suf"
    have "readVarInt_loop ?view (int (length pre)) 0 0
        = readVarInt_loop ?view (int (length pre)) (0 * 128 + v div 16384) (Suc 0)"
      using 3 by (intro read_cont) (simp_all add: view_nths length_Uint8Array)
    also have "\<dots> = readVarInt_loop ?view (int (length pre)) ((0 * 128 + v div 16384) * 128 + v div 128 mod 128) (Suc (Suc 0))"
      using 3 by (intro read_cont) (simp_all add: view_nths length_Uint8Array)
    also have "\<dots> = Inr (((0 * 128 + v div 16384) * 128 + v div 128 mod 128) * 128 + v mod 128, Suc (Suc (Suc 0)))"
      using 3 by (intro read_last) (simp_all add: view_nths length_Uint8Array)
    also have "((0 * 128 + v div 16384) * 128 + v div 128 mod 128) * 128 + v mod 128 = v"
    proof -
      have "v div 16384 = v div 128 div 128" by linarith
      then show ?thesis by simp
    qed
    finally have "?rd ?bs = Inr (v, 3)" by (simp add: readVarInt_def)
    then show ?thesis using 3 by (simp add: writeVarInt_3)
  next
    case 4
    let ?bs = "[v div 2097152 + 128, v div 16384 mod 128 + 128, v div 128 mod 128 + 128, v mod 128]"
    let ?view = "pre @ Uint8Array ?bs @ suf"
    have "readVarInt_loop ?view (int (length pre)) 0 0
        = readVarInt_loop ?view (int (length pre)) (0 * 128 + v div 2097152) (Suc 0)"
      using 4 by (intro read_cont) (simp_all add: view_nths length_Uint8Array)
    also have "\<dots> = readVarInt_loop ?view (int (length pre)) ((0 * 128 + v div 2097152) * 128 + v div 16384 mod 128) (Suc (Suc 0))"
      using 4 by (intro read_cont) (simp_all add: view_nths length_Uint8Array)
    also have "\<dots> = readVarInt_loop ?view (int (length pre))
        (((0 * 128 + v div 2097152) * 128 + v div 16384 mod 128) * 128 + v div 128 mod 128) (Suc (Suc (Suc 0)))"
      using 4 by (intro read_cont) (simp_all add: view_nths length_Uint8Array)
    also have "\<dots> = Inr ((((0 * 128 + v div 2097152) * 128 + v div 16384 mod 128) * 128 + v div 128 mod 128) * 128 + v mod 128,
        Suc (Suc (Suc (Suc 0))))"
      using 4 by (intro read_last) (simp_all add: view_nths length_Uint8Array)
    also have "(((0 * 128 + v div 2097152) * 128 + v div 16384 mod 128) * 128 + v div 128 mod 128) * 128 + v mod 128 = v"
    proof -
      have "v div 16384 = v div 128 div 128" by linarith
      moreover have "v div 2097152 = v div 128 div 128 div 128" by linarith
      ultimately show ?thesis by simp
    qed
    finally have "?rd ?bs = Inr (v, 4)" by (simp add: readVarInt_def)
    then show ?thesis using 4 by (simp add: writeVarInt_4)
  qed
qed


text \<open>
  C7, witness: the delta 240 of the concrete scenario.
\<close>

theorem varint_roundtrip_witness:
  "(0::int) \<le> 240 \<and> (240::int) < 2 ^ 28 \<and>
   (\<exists>bs. writeVarInt 240 = Some bs \<and> length bs \<le> 4 \<and>
      readVarInt ([] @ Uint8Array bs @ []) (int (length ([] :: u8 list))) = Inr (240, length bs))"
  using varint_roundtrip [of 240 "[]" "[]"] by simp

section \<open>Note names: the default on a string that does not parse\<close>

lemma match_digits_Some:
  "match_digits s = Some ds \<Longrightarrow> ds \<noteq> [] \<and> list_all is_digit ds \<and> (\<exists>suf. s = ds @ suf)"
  unfolding match_digits_def Let_def
  by (auto simp: list_all_iff split: if_splits dest: set_takeWhileD
      intro: exI [of _ "dropWhile is_digit s"])

lemma not_digit_minus: "\<not> is_digit CHR ''-''"
  by (simp add: is_digit_def)

lemma match_octave_Some:
  assumes "match_octave s = Some oct"
  shows "is_octave_part oct \<and> (\<exists>suf. s = oct @ suf)"
proof (cases s)
  case Nil
  with assms show ?thesis by (simp add: match_octave_def)
next
  case (Cons c r)
  show ?thesis
  proof (cases "c = CHR ''-''")
    case True
    have "match_digits s = None"
      using Cons True by (simp add: match_digits_def not_digit_minus)
    with assms Cons True obtain ds where ds: "match_digits r = Some ds" "oct = c # ds"
      by (auto simp: match_octave_def split: option.splits)
    from match_digits_Some [OF ds(1)] show ?thesis
      using Cons True ds(2) by (auto simp: is_octave_part_def)
  next
    case False
    with assms Cons have m: "match_digits s = Some oct" by (simp add: match_octave_def)
    from match_digits_Some [OF m] obtain suf where
      o: "oct \<noteq> []" "list_all is_digit oct" "s = oct @ suf" by blast
    then have "hd oct = c" using Cons by (cases oct) auto
    then show ?thesis using o False by (cases oct) (auto simp: is_octave_part_def)
  qed
qed

lemma match_at_Some:
  assumes "match_at s = Some (name, oct)"
  shows "is_note_part name \<and> is_octave_part oct \<and> (\<exists>suf. s = name @ oct @ suf)"
  using assms
  by (auto simp: match_at_def is_note_part_def split: list.splits if_splits option.splits
      dest!: match_octave_Some)

lemma note_match_Some:
  "note_match s = Some (name, oct) \<Longrightarrow> parses_as_note s"
proof (induction s)
  case Nil
  then show ?case by simp
next
  case (Cons c r)
  show ?case
  proof (cases "match_at (c # r)")
    case None
    with Cons have "parses_as_note r" by simp
    then obtain pre nm oc suf where "r = pre @ nm @ oc @ suf" "is_note_part nm" "is_octave_part oc"
      unfolding parses_as_note_def by blast
    then have "c # r = (c # pre) @ nm @ oc @ suf" by simp
    then show ?thesis unfolding parses_as_note_def
      using \<open>is_note_part nm\<close> \<open>is_octave_part oc\<close> by blast
  next
    case (Some m)
    with Cons.prems have "match_at (c # r) = Some (name, oct)" by simp
    from match_at_Some [OF this] obtain suf where
      "c # r = [] @ name @ oct @ suf" "is_note_part name" "is_octave_part oct" by auto
    then show ?thesis unfolding parses_as_note_def by blast
  qed
qed

lemma match_digits_append:
  "ds \<noteq> [] \<Longrightarrow> list_all is_digit ds \<Longrightarrow> match_digits (ds @ suf) \<noteq> None"
  by (cases ds) (auto simp: match_digits_def)

lemma match_octave_append:
  assumes "is_octave_part oct"
  shows "match_octave (oct @ suf) \<noteq> None"
proof (cases oct)
  case Nil
  with assms show ?thesis by (simp add: is_octave_part_def)
next
  case (Cons c r)
  show ?thesis
  proof (cases "c = CHR ''-''")
    case True
    with assms Cons have "r \<noteq> []" "list_all is_digit r" by (auto simp: is_octave_part_def)
    from match_digits_append [OF this, of suf] show ?thesis
      using Cons True by (auto simp: match_octave_def)
  next
    case False
    with assms Cons have "oct \<noteq> []" "list_all is_digit oct" by (auto simp: is_octave_part_def)
    from match_digits_append [OF this, of suf] show ?thesis
      using Cons False by (auto simp: match_octave_def)
  qed
qed

lemma match_at_append:
  assumes "is_note_part name" "is_octave_part oct"
  shows "match_at (name @ oct @ suf) \<noteq> None"
proof -
  from assms(1) consider c where "name = [c]" "is_letter c"
    | c a where "name = [c, a]" "is_letter c" "is_accidental a"
    by (auto simp: is_note_part_def split: list.splits)
  then show ?thesis
  proof cases
    case 1
    then show ?thesis using match_octave_append [OF assms(2), of suf]
      by (auto simp: match_at_def split: list.splits option.splits)
  next
    case 2
    then show ?thesis using match_octave_append [OF assms(2), of suf]
      by (auto simp: match_at_def split: list.splits option.splits)
  qed
qed

lemma note_match_append:
  "is_note_part name \<Longrightarrow> is_octave_part oct \<Longrightarrow> note_match (pre @ name @ oct @ suf) \<noteq> None"
proof (induction pre)
  case Nil
  then obtain c r where "name @ oct @ suf = c # r" by (cases name) (auto simp: is_note_part_def)
  then show ?case using match_at_append [OF Nil, of suf] by auto
next
  case (Cons a pre)
  then show ?case by (auto split: option.splits)
qed

lemma note_match_None_iff: "note_match s = None \<longleftrightarrow> \<not> parses_as_note s"
proof
  assume "note_match s = None"
  then show "\<not> parses_as_note s"
    unfolding parses_as_note_def using note_match_append by blast
next
  assume "\<not> parses_as_note s"
  then show "note_match s = None"
    using note_match_Some by (cases "note_match s") auto
qed

text \<open>
  C8. A string that does not parse as a note name under the pattern \<open>([A-G][#b]?)(-?\d+)\<close>
  is converted to the pitch 60; no error is raised.
\<close>

theorem noteToMidi_default:
  "\<not> parses_as_note s \<Longrightarrow> noteToMidi s = 60"
  by (simp add: noteToMidi_def note_match_None_iff [symmetric])

lemmas match_defs = match_at_def match_octave_def match_digits_def is_letter_def is_accidental_def is_digit_def

text \<open>
  C8, witness: a string with no capital letter \<open>A\<close> to \<open>G\<close>.
\<close>

theorem noteToMidi_default_witness:
  "\<not> parses_as_note ''middle c'' \<and> noteToMidi ''middle c'' = 60"
proof -
  have "note_match ''middle c'' = None" by (simp add: match_defs)
  then have "\<not> parses_as_note ''middle c''" by (rule note_match_None_iff [THEN iffD1])
  then show ?thesis using noteToMidi_default [of "''middle c''"] by simp
qed

section \<open>The decoder on concrete files\<close>

lemmas js_defs = js_and_def js_or_def js_sar_def js_shl_def ToInt32_def

lemmas decoder_defs = parseMidiFile_def bindE_def getUint8_def getUint16_def getUint32_def
  parse_track_def track_loop.simps parse_event_def readVarInt_def readVarInt_loop.simps
  Let_def note_name_def MIDI_TO_NOTE_def NOTE_NAMES_def string_of_int_def

text \<open>
  C6. Decoding the concrete file (header \<open>4D 54 68 64 00 00 00 06 00 00 00 01 01 E0\<close>,
  then one track with Note-On 60 velocity 100 at delta 0, Note-Off 60 velocity 0 after
  240 ticks, and End-of-Track) returns exactly two events: On C4 with velocity 100 at
  0 ms and Off C4 at 250 ms. The decoder fills in transpose 0, the instrument
  \<open>salamander\<close> and, on the Off event, the velocity byte 0.
\<close>

theorem decode_scenario:
  "parseMidiFile scenario_file =
     Some (Inr [\<lparr>time = 0, type = On, noteName = ''C4'', transpose = 0,
                 instrumentId = ''salamander'', velocity = Some 100\<rparr>,
               \<lparr>time = 250, type = Off, noteName = ''C4'', transpose = 0,
                 instrumentId = ''salamander'', velocity = Some 0\<rparr>])"
  by (simp add: scenario_file_def decoder_defs js_defs)

text \<open>
  C3. In the legato file C4 is struck at the tick at which D4 is released. The decoder
  sorts by time alone and keeps the file order among equal times, so the Note-On of C4
  at 500 ms comes before the Note-Off of D4 at 500 ms.
\<close>

theorem decode_legato_on_before_off:
  "parseMidiFile legato_file =
     Some (Inr [\<lparr>time = 0, type = On, noteName = ''D4'', transpose = 0,
                 instrumentId = ''salamander'', velocity = Some 100\<rparr>,
               \<lparr>time = 500, type = On, noteName = ''C4'', transpose = 0,
                 instrumentId = ''salamander'', velocity = Some 100\<rparr>,
               \<lparr>time = 500, type = Off, noteName = ''D4'', transpose = 0,
                 instrumentId = ''salamander'', velocity = Some 0\<rparr>,
               \<lparr>time = 1000, type = Off, noteName = ''C4'', transpose = 0,
                 instrumentId = ''salamander'', velocity = Some 0\<rparr>])"
  by (simp add: legato_file_def decoder_defs js_defs)

text \<open>
  The comparator of the library-backed decoder does order an Off event before an On
  event of the same time.
\<close>

lemma compare_events_tie:
  "time a = time b \<Longrightarrow> type a = Off \<Longrightarrow> type b = On \<Longrightarrow>
   compare_events a b < 0 \<and> compare_events b a > 0"
  by (simp add: compare_events_def)

section \<open>The encoders and a note that is never released\<close>

lemma pair_On:
  "type y = On \<Longrightarrow>
   pair_events (y # ys) P ns =
     pair_events ys
       (P(noteToMidi (noteName y) + transpose y \<mapsto>
            \<lparr>startTime = time y / 1000,
             pendingVelocity = real_of_int (velocity_or_80 (velocity y)) / 127\<rparr>)) ns"
  by (simp add: Let_def)

lemma pair_Off_None:
  "type y = Off \<Longrightarrow> P (noteToMidi (noteName y) + transpose y) = None \<Longrightarrow>
   pair_events (y # ys) P ns = pair_events ys P ns"
  by (simp add: Let_def)

lemma pair_Off_Some:
  "type y = Off \<Longrightarrow> P (noteToMidi (noteName y) + transpose y) = Some pending \<Longrightarrow>
   pair_events (y # ys) P ns =
     pair_events ys (P(noteToMidi (noteName y) + transpose y := None))
       (ns @ [\<lparr>midi = max 0 (min 127 (noteToMidi (noteName y) + transpose y)),
                noteTime = startTime pending,
                duration = (if time y / 1000 - startTime pending \<le> 0 then 0.05
                            else time y / 1000 - startTime pending),
                noteVelocity = pendingVelocity pending\<rparr>])"
  by (simp add: Let_def)

lemma pair_events_agree:
  assumes "\<forall>y \<in> set ys. type y = Off \<longrightarrow> noteToMidi (noteName y) + transpose y \<noteq> k0"
    and "\<forall>k. k \<noteq> k0 \<longrightarrow> P k = P' k"
  shows "pair_events ys P ns = pair_events ys P' ns"
  using assms
proof (induction ys arbitrary: P P' ns)
  case Nil
  then show ?case by simp
next
  case (Cons y ys)
  let ?k = "noteToMidi (noteName y) + transpose y"
  have r: "\<forall>y \<in> set ys. type y = Off \<longrightarrow> noteToMidi (noteName y) + transpose y \<noteq> k0"
    using Cons.prems(1) by simp
  show ?case
  proof (cases "type y")
    case On
    have "\<forall>j. j \<noteq> k0 \<longrightarrow> (P(?k \<mapsto> v)) j = (P'(?k \<mapsto> v)) j" for v
      using Cons.prems(2) by simp
    from Cons.IH [OF r this] show ?thesis by (simp only: pair_On [OF On])
  next
    case Off
    then have "?k \<noteq> k0" using Cons.prems(1) by simp
    then have e: "P ?k = P' ?k" using Cons.prems(2) by simp
    have u: "\<forall>j. j \<noteq> k0 \<longrightarrow> (P(?k := None)) j = (P'(?k := None)) j"
      using Cons.prems(2) by simp
    show ?thesis
    proof (cases "P' ?k")
      case None
      with e have "P ?k = None" by simp
      from Cons.IH [OF r Cons.prems(2)] show ?thesis
        by (simp only: pair_Off_None [where P = P', OF Off None]
            pair_Off_None [where P = P, OF Off \<open>P ?k = None\<close>])
    next
      case (Some pending)
      with e have "P ?k = Some pending" by simp
      from Cons.IH [OF r u] show ?thesis
        by (simp only: pair_Off_Some [where P = P', OF Off Some]
            pair_Off_Some [where P = P, OF Off \<open>P ?k = Some pending\<close>])
    qed
  qed
qed

text \<open>
  The library-backed encoder: an On event after which no Off event has the same key adds
  no note, wherever it stands in the time-ordered list.
\<close>

lemma unpaired_on_adds_no_note:
  assumes "type e = On"
    and "\<forall>y \<in> set ys. type y = Off \<longrightarrow>
           noteToMidi (noteName y) + transpose y \<noteq> noteToMidi (noteName e) + transpose e"
  shows "pair_events (xs @ e # ys) P ns = pair_events (xs @ ys) P ns"
proof (induction xs arbitrary: P ns)
  case Nil
  have "pair_events ys (P(noteToMidi (noteName e) + transpose e \<mapsto> v)) ns = pair_events ys P ns" for v
    by (rule pair_events_agree [OF assms(2)]) simp
  then show ?case by (simp only: append_Nil pair_On [OF assms(1)])
next
  case (Cons x xs)
  let ?k = "noteToMidi (noteName x) + transpose x"
  show ?case
  proof (cases "type x")
    case On
    then show ?thesis by (simp only: append_Cons pair_On [OF On] Cons.IH)
  next
    case Off
    show ?thesis
    proof (cases "P ?k")
      case None
      then show ?thesis by (simp only: append_Cons pair_Off_None [where P = P, OF Off None] Cons.IH)
    next
      case (Some pending)
      then show ?thesis by (simp only: append_Cons pair_Off_Some [where P = P, OF Off Some] Cons.IH)
    qed
  qed
qed

lemma NOTE_TO_MIDI_C4: "NOTE_TO_MIDI ''C4'' = Some 60"
  by (simp add: NOTE_TO_MIDI_def NOTE_NAMES_def string_of_int_def upt_rec [of _ "numeral _"])

lemma writeVarInt_0: "writeVarInt 0 = Some [0]"
  by (simp add: writeVarInt_def writeVarInt_pack.simps writeVarInt_emit.simps js_defs)

text \<open>
  C5. The hand-written encoder, given the single On event of \<open>held_note\<close>, writes the
  Note-On message \<open>00 90 3C 64\<close> into the track: the On event with no Off event is in the
  file, as a note that is never released.
\<close>

theorem encode_held_note:
  "generateMidiFile held_note =
     Some [0x4D, 0x54, 0x68, 0x64, 0x00, 0x00, 0x00, 0x06, 0x00, 0x00, 0x00, 0x01, 0x01, 0xE0,
           0x4D, 0x54, 0x72, 0x6B, 0x00, 0x00, 0x00, 0x08,
           0x00, 0x90, 0x3C, 0x64,
           0x00, 0xFF, 0x2F, 0x00]"
  by (simp add: generateMidiFile_def held_note_def NOTE_TO_MIDI_C4 writeVarInt_0 Math_round_def
      MS_PER_TICK_def PPQ_def BPM_def velocity_or_80_def js_defs Uint8Array_def)

text \<open>The same encoder on the empty recording, for comparison: the track holds End-of-Track alone.\<close>

lemma encode_nothing:
  "generateMidiFile [] =
     Some [0x4D, 0x54, 0x68, 0x64, 0x00, 0x00, 0x00, 0x06, 0x00, 0x00, 0x00, 0x01, 0x01, 0xE0,
           0x4D, 0x54, 0x72, 0x6B, 0x00, 0x00, 0x00, 0x04,
           0x00, 0xFF, 0x2F, 0x00]"
  by (simp add: generateMidiFile_def PPQ_def js_defs Uint8Array_def)

text \<open>The library-backed encoder hands no note to the library for the same input.\<close>

lemma held_note_library: "generateMidiFile_notes held_note = []"
  by (simp add: generateMidiFile_notes_def held_note_def Let_def)

section \<open>The playback scheduler\<close>

lemma not_On_iff: "(t \<noteq> On) = (t = Off)"
  by (cases t) auto

lemma schedule_loop_spec:
  "schedule_loop now s u i acc = (j, acc') \<Longrightarrow>
     i \<le> j \<and> (i < j \<longrightarrow> j \<le> length (recording s)) \<and>
     (j < length (recording s) \<longrightarrow> time (recording s ! j) / 1000 > u) \<and>
     acc' = acc @ map (\<lambda>k. (k, event_call s k)) (filter (handed now s) [i..<j])"
proof (induction now s u i acc arbitrary: j acc' rule: schedule_loop.induct)
  case (1 now s u i acc)
  show ?case
  proof (cases "i < length (recording s) \<and> \<not> time (recording s ! i) / 1000 > u")
    case False
    with "1.prems" have "j = i" "acc' = acc"
      by (auto simp: schedule_loop.simps [of now s u i acc] Let_def split: if_splits)
    then show ?thesis using False by auto
  next
    case True
    let ?evt = "recording s ! i"
    let ?t = "absolutePlayTime s ?evt"
    let ?acc1 = "if type ?evt = On then
                   (if ?t > now - 0.05 then
                      (if \<not> isPracticeMode s
                       then acc @ [(i, PlayNote (noteName ?evt) (transpose ?evt) (velocity ?evt) ?t)]
                       else acc)
                    else acc)
                 else acc @ [(i, StopNote (noteName ?evt) (transpose ?evt) ?t)]"
    have a: "?acc1 = (if handed now s i then acc @ [(i, event_call s i)] else acc)"
      by (auto simp: handed_def event_call_def Let_def not_On_iff)
    have "schedule_loop now s u i acc = schedule_loop now s u (i + 1) ?acc1"
      using True by (subst schedule_loop.simps) (simp add: Let_def)
    with "1.prems" have r: "schedule_loop now s u (i + 1) ?acc1 = (j, acc')" by simp
    have "i + 1 \<le> j \<and> (i + 1 < j \<longrightarrow> j \<le> length (recording s)) \<and>
          (j < length (recording s) \<longrightarrow> time (recording s ! j) / 1000 > u) \<and>
          acc' = ?acc1 @ map (\<lambda>k. (k, event_call s k)) (filter (handed now s) [i + 1..<j])"
      using True r by (intro "1.IH" [OF _ refl refl _ refl refl]) auto
    then show ?thesis
      unfolding a using True by (auto simp: upt_conv_Cons)
  qed
qed

lemma runAudioScheduler_ok:
  assumes "runAudioScheduler now s = (s1, sched, calls)"
  shows "step_ok s s1 sched"
proof (cases "recording s = []")
  case True
  with assms show ?thesis by (auto simp: runAudioScheduler_def step_ok_def)
next
  case False
  obtain j acc where l: "schedule_loop now s (trackPlayTime now s + 0.1 * playbackSpeed s) (audioCursor s) [] = (j, acc)"
    by (cases "schedule_loop now s (trackPlayTime now s + 0.1 * playbackSpeed s) (audioCursor s) []")
  from schedule_loop_spec [OF l] have j: "audioCursor s \<le> j"
    "audioCursor s < j \<longrightarrow> j \<le> length (recording s)"
    "acc = map (\<lambda>k. (k, event_call s k)) (filter (handed now s) [audioCursor s..<j])" by auto
  from assms False l have "sched = acc" "audioCursor s1 = j" "recording s1 = recording s"
    by (auto simp: runAudioScheduler_def Let_def pausePlayback_def split: if_splits)
  with j show ?thesis unfolding step_ok_def by blast
qed

lemma step_ok_idle:
  "recording s1 = recording s \<Longrightarrow> audioCursor s1 = audioCursor s \<Longrightarrow> step_ok s s1 []"
  unfolding step_ok_def by (auto intro: exI [of _ s])

lemma step_ok: "step a s = (s1, sched, calls) \<Longrightarrow> step_ok s s1 sched"
proof (cases a)
  case (Tick now)
  assume "step a s = (s1, sched, calls)"
  with Tick show ?thesis
  proof (cases "workerRunning s")
    case True
    with Tick \<open>step a s = (s1, sched, calls)\<close> show ?thesis
      by (simp add: runAudioScheduler_ok)
  next
    case False
    with Tick \<open>step a s = (s1, sched, calls)\<close> show ?thesis
      by (auto simp: step_ok_idle)
  qed
next
  case (SetSpeed now ns)
  assume "step a s = (s1, sched, calls)"
  with SetSpeed have "recording s1 = recording s" "audioCursor s1 = audioCursor s" "sched = []"
    by (auto simp: changePlaybackSpeed_def Let_def)
  then show ?thesis by (simp add: step_ok_idle)
qed

lemma event_call_of_event:
  "call_of_event (recording s0 ! k) (event_call s0 k)"
  by (cases "type (recording s0 ! k)") (auto simp: event_call_def Let_def)

lemma step_ok_facts:
  assumes "step_ok s s1 sched"
  shows "sorted_wrt (<) (map fst sched)"
    and "set (map fst sched) \<subseteq> {audioCursor s..<audioCursor s1}"
    and "\<forall>i. audioCursor s \<le> i \<and> i < audioCursor s1 \<and> type (recording s ! i) = Off \<longrightarrow> i \<in> set (map fst sched)"
    and "\<forall>(i, c) \<in> set sched. i < length (recording s) \<and> call_of_event (recording s ! i) c"
proof -
  from assms obtain now s0 where r: "recording s0 = recording s"
    and s: "sched = map (\<lambda>k. (k, event_call s0 k)) (filter (handed now s0) [audioCursor s..<audioCursor s1])"
    and b: "audioCursor s < audioCursor s1 \<longrightarrow> audioCursor s1 \<le> length (recording s)"
    unfolding step_ok_def by blast
  have m: "map fst sched = filter (handed now s0) [audioCursor s..<audioCursor s1]"
    unfolding s by (simp add: comp_def)
  show "sorted_wrt (<) (map fst sched)"
    unfolding m by (simp add: sorted_wrt_filter)
  show "set (map fst sched) \<subseteq> {audioCursor s..<audioCursor s1}"
    unfolding m by auto
  show "\<forall>i. audioCursor s \<le> i \<and> i < audioCursor s1 \<and> type (recording s ! i) = Off \<longrightarrow> i \<in> set (map fst sched)"
    unfolding m using r by (auto simp: handed_def)
  show "\<forall>(i, c) \<in> set sched. i < length (recording s) \<and> call_of_event (recording s ! i) c"
    unfolding s using b event_call_of_event [of s0] r by auto
qed

lemma run_session:
  "run acts s = (s', made) \<Longrightarrow>
     recording s' = recording s \<and> audioCursor s \<le> audioCursor s' \<and>
     sorted_wrt (<) (map fst made) \<and>
     set (map fst made) \<subseteq> {audioCursor s..<audioCursor s'} \<and>
     (\<forall>i. audioCursor s \<le> i \<and> i < audioCursor s' \<and> type (recording s ! i) = Off \<longrightarrow> i \<in> set (map fst made)) \<and>
     (\<forall>(i, c) \<in> set made. i < length (recording s) \<and> call_of_event (recording s ! i) c)"
proof (induction acts arbitrary: s s' made)
  case Nil
  then show ?case by simp
next
  case (Cons a acts)
  obtain s1 sched calls where st: "step a s = (s1, sched, calls)" by (cases "step a s")
  obtain s2 rest where rn: "run acts s1 = (s2, rest)" by (cases "run acts s1")
  from Cons.prems st rn have e: "s' = s2" "made = sched @ rest" by auto
  note ok = step_ok [OF st]
  note f = step_ok_facts [OF ok]
  from ok have r1: "recording s1 = recording s" "audioCursor s \<le> audioCursor s1"
    by (auto simp: step_ok_def)
  note ih = Cons.IH [OF rn]
  have "sorted_wrt (<) (map fst (sched @ rest))"
    using f(1,2) ih by (fastforce simp: sorted_wrt_append)
  moreover have "set (map fst (sched @ rest)) \<subseteq> {audioCursor s..<audioCursor s2}"
    using f(2) ih r1 by fastforce
  moreover have "\<forall>i. audioCursor s \<le> i \<and> i < audioCursor s2 \<and> type (recording s ! i) = Off
      \<longrightarrow> i \<in> set (map fst (sched @ rest))"
  proof (intro allI impI)
    fix i assume i: "audioCursor s \<le> i \<and> i < audioCursor s2 \<and> type (recording s ! i) = Off"
    show "i \<in> set (map fst (sched @ rest))"
    proof (cases "i < audioCursor s1")
      case True
      with i f(3) show ?thesis by auto
    next
      case False
      with i ih r1 show ?thesis by auto
    qed
  qed
  moreover have "\<forall>(i, c) \<in> set (sched @ rest). i < length (recording s) \<and> call_of_event (recording s ! i) c"
    using f(4) ih r1 by auto
  ultimately show ?case using e ih r1 by auto
qed

lemma speed_change_continuous:
  "isPlayingBack s \<Longrightarrow> newSpeed \<noteq> 0 \<Longrightarrow>
     trackPlayTime now (changePlaybackSpeed now newSpeed s) = trackPlayTime now s"
  by (simp add: trackPlayTime_def changePlaybackSpeed_def Let_def)


lemma runAudioScheduler_calls:
  assumes "runAudioScheduler now p = (p1, sched, calls)"
  shows "sched = map (\<lambda>k. (k, event_call p k)) (filter (handed now p) [audioCursor p..<audioCursor p1])"
    and "audioCursor p1 < length (recording p) \<longrightarrow>
           time (recording p ! audioCursor p1) / 1000 > trackPlayTime now p + 0.1 * playbackSpeed p"
proof -
  show "sched = map (\<lambda>k. (k, event_call p k)) (filter (handed now p) [audioCursor p..<audioCursor p1])"
  proof (cases "recording p = []")
    case True
    with assms show ?thesis by (auto simp: runAudioScheduler_def)
  next
    case False
    obtain j acc where l: "schedule_loop now p (trackPlayTime now p + 0.1 * playbackSpeed p) (audioCursor p) [] = (j, acc)"
      by (cases "schedule_loop now p (trackPlayTime now p + 0.1 * playbackSpeed p) (audioCursor p) []")
    from assms False l have "sched = acc" "audioCursor p1 = j"
      by (auto simp: runAudioScheduler_def Let_def pausePlayback_def split: if_splits)
    with schedule_loop_spec [OF l] show ?thesis by simp
  qed
  show "audioCursor p1 < length (recording p) \<longrightarrow>
           time (recording p ! audioCursor p1) / 1000 > trackPlayTime now p + 0.1 * playbackSpeed p"
  proof (cases "recording p = []")
    case True
    then show ?thesis by simp
  next
    case False
    obtain j acc where l: "schedule_loop now p (trackPlayTime now p + 0.1 * playbackSpeed p) (audioCursor p) [] = (j, acc)"
      by (cases "schedule_loop now p (trackPlayTime now p + 0.1 * playbackSpeed p) (audioCursor p) []")
    from assms False l have "audioCursor p1 = j"
      by (auto simp: runAudioScheduler_def Let_def pausePlayback_def split: if_splits)
    with schedule_loop_spec [OF l] show ?thesis by simp
  qed
qed

text \<open>
  C2, as amended. In one session of playing (ticks and speed changes, from any state):
  the calls made for events come in strictly increasing order of the event index, so no
  event is handed over twice; they are made for events between the old and the new
  cursor; every Off event the cursor has passed was handed over; each call is the call
  of its event (playNote for an On event, stopNote for an Off event, with the event's
  note and transpose). At one tick the events handed over are exactly those the cursor
  passes that are Off events or On events whose play time is later than \<open>now - 0.05\<close>
  with practice mode off, and the cursor comes to rest at the end of the recording or at
  an event later than the look-ahead horizon. A speed change to a non-zero speed while playing leaves the
  track time at that instant unchanged.
\<close>

theorem scheduler_session:
  assumes "run acts s = (s', made)"
  shows "sorted_wrt (<) (map fst made) \<and>
         set (map fst made) \<subseteq> {audioCursor s..<audioCursor s'} \<and>
         (\<forall>i. audioCursor s \<le> i \<and> i < audioCursor s' \<and> type (recording s ! i) = Off
              \<longrightarrow> i \<in> set (map fst made)) \<and>
         (\<forall>(i, c) \<in> set made. i < length (recording s) \<and> call_of_event (recording s ! i) c) \<and>
         (\<forall>now p p1 sched calls. runAudioScheduler now p = (p1, sched, calls) \<longrightarrow>
              map fst sched = filter (handed now p) [audioCursor p..<audioCursor p1] \<and>
              (audioCursor p1 < length (recording p) \<longrightarrow>
                 time (recording p ! audioCursor p1) / 1000
                   > trackPlayTime now p + 0.1 * playbackSpeed p)) \<and>
         (\<forall>now newSpeed p. isPlayingBack p \<and> newSpeed \<noteq> 0 \<longrightarrow>
              trackPlayTime now (changePlaybackSpeed now newSpeed p) = trackPlayTime now p)"
proof -
  have "map fst sched = filter (handed now p) [audioCursor p..<audioCursor p1] \<and>
        (audioCursor p1 < length (recording p) \<longrightarrow>
           time (recording p ! audioCursor p1) / 1000 > trackPlayTime now p + 0.1 * playbackSpeed p)"
    if "runAudioScheduler now p = (p1, sched, calls)" for now p p1 sched calls
    using runAudioScheduler_calls [OF that] by (simp add: comp_def)
  then show ?thesis
    using run_session [OF assms] speed_change_continuous by blast
qed

lemmas player_defs = runAudioScheduler_def startPlayback_def pausePlayback_def changePlaybackSpeed_def
  visualLoop_def trackPlayTime_def absolutePlayTime_def schedule_loop.simps Let_def

lemmas engine_defs = playNote_def stopNote_def mapKey_def string_of_int_def getNoteNumber_def
  getClosestBuffer_def sharpMap_def parseInt_def NOTE_NAMES_def release_time_def match_defs Let_def

lemma started: "startPlayback 10 demo_player =
   demo_player\<lparr>audioContextStartTime := 10, isPlayingBack := True, workerRunning := True\<rparr>"
  by (simp add: demo_player_def player_defs)

lemma first_tick: "runAudioScheduler 10 (startPlayback 10 demo_player) =
   (demo_player\<lparr>audioContextStartTime := 10, isPlayingBack := True, workerRunning := True,
                 audioCursor := 1\<rparr>,
    [(0, PlayNote ''D4'' 0 (Some 100) 10)], [])"
  unfolding started by (simp add: demo_player_def player_defs)


lemma sounding: "sounding_engine =
   demo_engine\<lparr>created := 1, ops := [SourceStart 0 ''D#4'' (- 1) (10000 / 16129) 10],
                activeSources := [''D4_0'' \<mapsto> 0]\<rparr>"
  unfolding sounding_engine_def first_tick
  by (simp add: demo_engine_def engine_defs)

text \<open>
  C1. D4 is sounding: the engine holds the source started for it. \<open>pausePlayback\<close> makes
  one call, the stop of C4 with transpose 0; run against the engine it changes nothing,
  and D4 goes on sounding.
\<close>

theorem pause_stops_only_C4:
  "activeSources sounding_engine (mapKey ''D4'' 0) = Some 0 \<and>
   snd (pausePlayback playing_player) = [StopNote ''C4'' 0 0] \<and>
   fold (perform (21 / 2)) (snd (pausePlayback playing_player)) sounding_engine = sounding_engine"
  unfolding sounding
  by (simp add: pausePlayback_def demo_engine_def stopNote_def mapKey_def string_of_int_def)

text \<open>
  C2, counterexample. Playback starts at the clock reading 10 and the first tick runs
  at 10.1. The On event at 0 ms has the play time 10, which is not later than
  \<open>10.1 - 0.05\<close>: the cursor passes it and no call is made for it. The session runs to the
  end of the song and the only call made for an event is the stop of the Off event.
\<close>

theorem late_tick_skips_note:
  "snd (run [Tick (101 / 10), Tick 12, Tick (131 / 10)] (startPlayback 10 demo_player))
     = [(1, StopNote ''D4'' 0 12)] \<and>
   audioCursor (fst (run [Tick (101 / 10), Tick 12, Tick (131 / 10)] (startPlayback 10 demo_player))) = 2"
  unfolding started by (simp add: demo_player_def player_defs)

lemma resumed: "resumed_player =
   demo_player\<lparr>audioContextStartTime := 10, isPlayingBack := True, workerRunning := True,
                 playbackStartOffset := 500, audioCursor := 1, lastStaveIndex := 2, elapsedTime := 3100\<rparr>"
  by (simp add: resumed_player_def demo_player_def player_defs)

text \<open>
  C4. The player was resumed from 500 ms and shows the elapsed time 3100 ms. The tick
  at 12.6 finds the track time more than one second past the last event, at 2000 ms,
  and it does not leave the position where it is: after the tick the elapsed time and
  the start offset are both 0.
\<close>

theorem end_of_song_position_reset:
  "elapsedTime resumed_player = 3100 \<and> playbackStartOffset resumed_player = 500 \<and>
   elapsedTime (fst (runAudioScheduler (63 / 5) resumed_player)) = 0 \<and>
   playbackStartOffset (fst (runAudioScheduler (63 / 5) resumed_player)) = 0"
  unfolding resumed by (simp add: demo_player_def player_defs)

text \<open>
  The same at every player with a recording: a tick that finds the track time more than
  1.0 s past the last event's time stops the worker, leaves the playing state and sets
  the elapsed time and the start offset to 0.
\<close>

lemma tick_past_margin:
  "recording s \<noteq> [] \<Longrightarrow> trackPlayTime now s > time (last (recording s)) / 1000 + 1 \<Longrightarrow>
   \<not> workerRunning (fst (runAudioScheduler now s)) \<and>
   \<not> isPlayingBack (fst (runAudioScheduler now s)) \<and>
   elapsedTime (fst (runAudioScheduler now s)) = 0 \<and>
   playbackStartOffset (fst (runAudioScheduler now s)) = 0"
  by (simp add: runAudioScheduler_def Let_def pausePlayback_def split: prod.splits)

text \<open>
  C2, witness: the recording played with a tick at 10, a change to half speed at 10.5 and
  a tick at 13.9.
\<close>

theorem scheduler_session_witness:
  "run [Tick 10, SetSpeed (21 / 2) (1 / 2), Tick (139 / 10)] (startPlayback 10 demo_player)
     = (demo_player\<lparr>audioContextStartTime := 19 / 2, isPlayingBack := True, workerRunning := True,
                     playbackSpeed := 1 / 2, audioCursor := 2\<rparr>,
        [(0, PlayNote ''D4'' 0 (Some 100) 10), (1, StopNote ''D4'' 0 (27 / 2))]) \<and>
   sorted_wrt (<) (map fst [(0::nat, PlayNote ''D4'' 0 (Some 100) 10), (1, StopNote ''D4'' 0 (27 / 2))]) \<and>
   isPlayingBack (startPlayback 10 demo_player) \<and>
   trackPlayTime (21 / 2) (changePlaybackSpeed (21 / 2) (1 / 2) (startPlayback 10 demo_player))
     = trackPlayTime (21 / 2) (startPlayback 10 demo_player)"
proof -
  have r: "run [Tick 10, SetSpeed (21 / 2) (1 / 2), Tick (139 / 10)] (startPlayback 10 demo_player)
     = (demo_player\<lparr>audioContextStartTime := 19 / 2, isPlayingBack := True, workerRunning := True,
                     playbackSpeed := 1 / 2, audioCursor := 2\<rparr>,
        [(0, PlayNote ''D4'' 0 (Some 100) 10), (1, StopNote ''D4'' 0 (27 / 2))])"
    unfolding started by (simp add: demo_player_def player_defs)
  have p: "isPlayingBack (startPlayback 10 demo_player)"
    unfolding started by simp
  from scheduler_session [OF r] p show ?thesis using r by simp
qed

lemma paused_early_eq: "paused_early =
   ahead_player\<lparr>audioContextStartTime := 10, audioCursor := 1, elapsedTime := 20\<rparr>"
  by (simp add: paused_early_def ahead_player_def demo_player_def player_defs)

text \<open>
  Across a pause the cursor is set back to the first event at or after the elapsed time
  shown, and the event at 50 ms, already handed over in the look-ahead of the first
  tick, is handed over again by the first tick after the resume.
\<close>

lemma resume_hands_event_again:
  "fst (snd (runAudioScheduler 10 (startPlayback 10 ahead_player)))
     = [(0, PlayNote ''D4'' 0 (Some 100) (201 / 20))] \<and>
   fst (snd (runAudioScheduler 11 (startPlayback 11 paused_early)))
     = [(0, PlayNote ''D4'' 0 (Some 100) (1103 / 100))]"
  unfolding paused_early_eq by (simp add: ahead_player_def demo_player_def player_defs)

section \<open>The metronome\<close>

lemma tick_step:
  "nextNextNoteTime (scheduleMetronomeTick t s) =
     s\<lparr>nextNoteTime := nextNoteTime s + 60 / bpm s,
       ops := ops s @ ticks_from s t (60 / bpm s) 1\<rparr>"
  by (simp add: nextNextNoteTime_def scheduleMetronomeTick_def Let_def ticks_from_def)

lemma ticks_from_add:
  "ticks_from s t0 c n @ ticks_from s (t0 + real n * c) c m = ticks_from s t0 c (n + m)"
proof -
  let ?f = "\<lambda>i. MetronomeTick (metronomeSound s) (t0 + real i * c)"
  have a: "\<And>i. t0 + real n * c + real i * c = t0 + real (i + n) * c"
    by (simp add: distrib_right)
  have "map (\<lambda>i. MetronomeTick (metronomeSound s) (t0 + real n * c + real i * c)) [0..<m]
      = map ?f (map (\<lambda>i. i + n) [0..<m])"
    unfolding a by (simp add: comp_def)
  also have "\<dots> = map ?f [n..<m + n]"
    by (simp only: map_add_upt)
  finally have e: "map (\<lambda>i. MetronomeTick (metronomeSound s) (t0 + real n * c + real i * c)) [0..<m]
      = map ?f [n..<m + n]" .
  have "[0..<n + m] = [0..<n] @ [n..<n + m]"
    by (rule upt_add_eq_append) simp
  then have "map ?f [0..<n + m] = map ?f [0..<n] @ map ?f [n..<n + m]"
    by (simp only: map_append)
  also have "n + m = m + n" by (rule add.commute)
  finally have r: "map ?f [0..<n] @ map (\<lambda>i. MetronomeTick (metronomeSound s) (t0 + real n * c + real i * c)) [0..<m]
      = map ?f [0..<n + m]"
    by (simp only: e add.commute [of m n])
  show ?thesis
  proof (cases "ctx s \<and> masterGain s")
    case True
    then have d: "\<And>t n. ticks_from s t c n
        = map (\<lambda>i. MetronomeTick (metronomeSound s) (t + real i * c)) [0..<n]"
      by (simp add: ticks_from_def)
    show ?thesis unfolding d by (rule r)
  next
    case False
    then have d: "\<And>t n. ticks_from s t c n = []"
      by (auto simp: ticks_from_def)
    show ?thesis unfolding d by simp
  qed
qed

lemma ticks_from_Suc:
  "ticks_from s t0 c 1 @ ticks_from s (t0 + c) c n = ticks_from s t0 c (Suc n)"
  using ticks_from_add [of s t0 c 1 n] by simp

lemma ticks_from_cong:
  "ctx s' = ctx s \<Longrightarrow> masterGain s' = masterGain s \<Longrightarrow> metronomeSound s' = metronomeSound s \<Longrightarrow>
   ticks_from s' = ticks_from s"
  by (intro ext) (simp add: ticks_from_def)

lemma scheduler_loop_bounded:
  "60 / bpm s = c \<Longrightarrow> now + scheduleAheadTime - nextNoteTime s \<le> real k * c \<Longrightarrow>
     \<exists>n. scheduler_loop now s =
       Some (s\<lparr>nextNoteTime := nextNoteTime s + real n * c,
               ops := ops s @ ticks_from s (nextNoteTime s) c n\<rparr>)"
proof (induction k arbitrary: s)
  case 0
  then have "\<not> nextNoteTime s < now + scheduleAheadTime" by simp
  then have "scheduler_loop now s = Some s" by (subst scheduler_loop.simps) simp
  then show ?case by (intro exI [of _ 0]) (simp add: ticks_from_def)
next
  case (Suc k)
  show ?case
  proof (cases "nextNoteTime s < now + scheduleAheadTime")
    case False
    then have "scheduler_loop now s = Some s" by (subst scheduler_loop.simps) simp
    then show ?thesis by (intro exI [of _ 0]) (simp add: ticks_from_def)
  next
    case True
    define s1 where "s1 = s\<lparr>nextNoteTime := nextNoteTime s + c,
       ops := ops s @ ticks_from s (nextNoteTime s) c 1\<rparr>"
    have st: "nextNextNoteTime (scheduleMetronomeTick (nextNoteTime s) s) = s1"
      using Suc.prems(1) by (simp add: tick_step s1_def)
    have "ticks_from s1 = ticks_from s"
      by (rule ticks_from_cong) (simp_all add: s1_def)
    then have s1: "60 / bpm s1 = c" "nextNoteTime s1 = nextNoteTime s + c"
      "ops s1 = ops s @ ticks_from s (nextNoteTime s) c 1" "ticks_from s1 = ticks_from s"
      using Suc.prems(1) by (simp_all add: s1_def)
    have e: "real (Suc k) * c = c + real k * c"
      by (simp add: distrib_right)
    have "now + scheduleAheadTime - nextNoteTime s1 \<le> real k * c"
      using Suc.prems(2) s1(2) e by linarith
    from Suc.IH [OF s1(1) this] obtain n where
      n: "scheduler_loop now s1 =
           Some (s1\<lparr>nextNoteTime := nextNoteTime s1 + real n * c,
                   ops := ops s1 @ ticks_from s1 (nextNoteTime s1) c n\<rparr>)" by blast
    have t: "nextNoteTime s1 + real n * c = nextNoteTime s + real (Suc n) * c"
      unfolding s1(2) by (simp add: distrib_right)
    have o: "ops s1 @ ticks_from s1 (nextNoteTime s1) c n
        = ops s @ ticks_from s (nextNoteTime s) c (Suc n)"
      unfolding s1 by (simp only: append_assoc ticks_from_Suc)
    have r: "s1\<lparr>nextNoteTime := nextNoteTime s1 + real n * c,
                   ops := ops s1 @ ticks_from s1 (nextNoteTime s1) c n\<rparr>
         = s\<lparr>nextNoteTime := nextNoteTime s + real (Suc n) * c,
               ops := ops s @ ticks_from s (nextNoteTime s) c (Suc n)\<rparr>"
      unfolding t o by (simp add: s1_def)
    have "scheduler_loop now s = scheduler_loop now s1"
      using True st by (subst scheduler_loop.simps) simp
    with n r show ?thesis by (intro exI [of _ "Suc n"]) simp
  qed
qed

lemma scheduler_loop_total:
  assumes "0 < bpm s"
  shows "\<exists>n. scheduler_loop now s =
           Some (s\<lparr>nextNoteTime := nextNoteTime s + real n * (60 / bpm s),
                   ops := ops s @ ticks_from s (nextNoteTime s) (60 / bpm s) n\<rparr>)"
proof -
  have "0 < 60 / bpm s" using assms by simp
  then obtain k where "now + scheduleAheadTime - nextNoteTime s \<le> real k * (60 / bpm s)"
    using reals_Archimedean3 [of "60 / bpm s"] by (metis less_eq_real_def mult.commute)
  from scheduler_loop_bounded [OF refl this] show ?thesis .
qed

lemma scheduler_total:
  assumes "0 < bpm s"
  shows "\<exists>n s'. scheduler now s = Some s' \<and> nextNoteTime s' = nextNoteTime s + real n * (60 / bpm s) \<and>
           ops s' = ops s @ ticks_from s (nextNoteTime s) (60 / bpm s) n \<and>
           bpm s' = bpm s \<and> ticks_from s' = ticks_from s"
proof (cases "ctx s")
  case False
  then have "scheduler now s = Some s" by (simp add: scheduler_def)
  then show ?thesis by (intro exI [of _ 0] exI [of _ s]) (simp add: ticks_from_def False)
next
  case True
  from scheduler_loop_total [OF assms, of now] obtain n where
    l0: "scheduler_loop now s =
           Some (s\<lparr>nextNoteTime := nextNoteTime s + real n * (60 / bpm s),
                   ops := ops s @ ticks_from s (nextNoteTime s) (60 / bpm s) n\<rparr>)" by blast
  define s1 where "s1 = s\<lparr>nextNoteTime := nextNoteTime s + real n * (60 / bpm s),
                   ops := ops s @ ticks_from s (nextNoteTime s) (60 / bpm s) n\<rparr>"
  have l: "scheduler_loop now s = Some s1" using l0 by (simp add: s1_def)
  define s2 where "s2 = (if isMetronomePlaying s1 then s1\<lparr>timerID := True\<rparr> else s1)"
  have "ticks_from s2 = ticks_from s"
    by (rule ticks_from_cong) (simp_all add: s2_def s1_def)
  moreover have "scheduler now s = Some s2"
    using True l by (simp add: scheduler_def s2_def)
  moreover have "nextNoteTime s2 = nextNoteTime s + real n * (60 / bpm s)"
    "ops s2 = ops s @ ticks_from s (nextNoteTime s) (60 / bpm s) n" "bpm s2 = bpm s"
    by (simp_all add: s2_def s1_def)
  ultimately show ?thesis by blast
qed

lemma scheduler_calls_total:
  "0 < bpm s \<Longrightarrow>
     \<exists>n s'. scheduler_calls nows s = Some s' \<and> nextNoteTime s' = nextNoteTime s + real n * (60 / bpm s) \<and>
           ops s' = ops s @ ticks_from s (nextNoteTime s) (60 / bpm s) n \<and> bpm s' = bpm s"
proof (induction nows arbitrary: s)
  case Nil
  then show ?case by (intro exI [of _ 0] exI [of _ s]) (simp add: ticks_from_def)
next
  case (Cons now nows)
  from scheduler_total [OF Cons.prems, of now] obtain n s1 where
    s1: "scheduler now s = Some s1" "nextNoteTime s1 = nextNoteTime s + real n * (60 / bpm s)"
      "ops s1 = ops s @ ticks_from s (nextNoteTime s) (60 / bpm s) n"
      "bpm s1 = bpm s" "ticks_from s1 = ticks_from s" by blast
  from Cons.IH [of s1] Cons.prems s1(4) obtain m s2 where
    s2: "scheduler_calls nows s1 = Some s2" "nextNoteTime s2 = nextNoteTime s1 + real m * (60 / bpm s1)"
      "ops s2 = ops s1 @ ticks_from s1 (nextNoteTime s1) (60 / bpm s1) m" "bpm s2 = bpm s1" by auto
  have "ops s2 = ops s @ ticks_from s (nextNoteTime s) (60 / bpm s) (n + m)"
    unfolding s2(3) s1 by (simp only: append_assoc ticks_from_add)
  moreover have "nextNoteTime s2 = nextNoteTime s + real (n + m) * (60 / bpm s)"
    unfolding s2(2) s1 by (simp only: of_nat_add distrib_right add.assoc)
  ultimately show ?case using s1(1,4) s2(1,4)
    by (intro exI [of _ "n + m"] exI [of _ s2]) simp
qed

text \<open>
  C9. \<open>setBPM\<close> with a positive tempo leaves the next tick time and everything scheduled
  so far as they are; \<open>startMetronome\<close> on a running metronome does nothing more; and
  every later run of the scheduler returns, having appended ticks at the old next tick
  time plus \<open>0, 1, 2, \<dots>\<close> times \<open>60 / bpm\<close> and having advanced the next tick time by
  as many steps of \<open>60 / bpm\<close>.
\<close>

theorem tempo_change:
  assumes "0 < b"
  shows "nextNoteTime (setBPM b s) = nextNoteTime s \<and> ops (setBPM b s) = ops s \<and>
         (isMetronomePlaying s \<longrightarrow> startMetronome now b (setBPM b s) = Some (setBPM b s)) \<and>
         (\<exists>n s'. scheduler_calls nows (setBPM b s) = Some s' \<and>
            nextNoteTime s' = nextNoteTime s + real n * (60 / b) \<and>
            ops s' = ops s @ ticks_from s (nextNoteTime s) (60 / b) n)"
proof -
  have "0 < bpm (setBPM b s)" using assms by (simp add: setBPM_def)
  from scheduler_calls_total [OF this, of nows] obtain n s' where
    "scheduler_calls nows (setBPM b s) = Some s'"
    "nextNoteTime s' = nextNoteTime (setBPM b s) + real n * (60 / bpm (setBPM b s))"
    "ops s' = ops (setBPM b s) @ ticks_from (setBPM b s) (nextNoteTime (setBPM b s)) (60 / bpm (setBPM b s)) n"
    by blast
  moreover have "ticks_from (setBPM b s) = ticks_from s"
    by (rule ticks_from_cong) (simp_all add: setBPM_def)
  ultimately have "\<exists>n s'. scheduler_calls nows (setBPM b s) = Some s' \<and>
            nextNoteTime s' = nextNoteTime s + real n * (60 / b) \<and>
            ops s' = ops s @ ticks_from s (nextNoteTime s) (60 / b) n"
    by (intro exI [of _ n] exI [of _ s']) (simp add: setBPM_def)
  then show ?thesis by (simp add: setBPM_def startMetronome_def)
qed

text \<open>
  C9, witness: the running metronome is set from 120 to 90 beats per minute; the tick at
  10.05 stays, and the next tick time becomes \<open>10.05 + 60 / 90\<close>.
\<close>

theorem tempo_change_witness:
  "(0::real) < 90 \<and> isMetronomePlaying ticking_engine \<and>
   nextNoteTime (setBPM 90 ticking_engine) = 201 / 20 \<and>
   ops (setBPM 90 ticking_engine) = [] \<and>
   startMetronome 10 90 (setBPM 90 ticking_engine) = Some (setBPM 90 ticking_engine) \<and>
   map_option ops (scheduler_calls [10, 21 / 2] (setBPM 90 ticking_engine))
     = Some [MetronomeTick beep (201 / 20)]"
proof -
  have p: "isMetronomePlaying ticking_engine" by (simp add: ticking_engine_def)
  have e: "scheduler_calls [10, 21 / 2] (setBPM 90 ticking_engine)
      = Some (ticking_engine\<lparr>bpm := 90, nextNoteTime := 643 / 60, ops := [MetronomeTick beep (201 / 20)]\<rparr>)"
    by (simp add: ticking_engine_def demo_engine_def setBPM_def scheduler_def scheduler_loop.simps
        scheduleAheadTime_def nextNextNoteTime_def scheduleMetronomeTick_def Let_def)
  from tempo_change [where b = 90 and s = ticking_engine and nows = "[10, 21 / 2]" and now = 10] p
  show ?thesis
    unfolding e by (simp add: ticking_engine_def demo_engine_def setBPM_def)
qed

section \<open>The active sources of the audio engine\<close>



declare string_of_nat.simps [simp del]









lemma stopNote_other:
  "k \<noteq> mapKey nt tr \<Longrightarrow> activeSources (stopNote now nt tr when e) k = activeSources e k"
  by (simp add: stopNote_def Let_def split: option.splits)

lemma stopNote_frame:
  "ctx (stopNote now nt tr when e) = ctx e \<and> isLoaded (stopNote now nt tr when e) = isLoaded e \<and>
   masterGain (stopNote now nt tr when e) = masterGain e \<and> buffers (stopNote now nt tr when e) = buffers e \<and>
   created (stopNote now nt tr when e) = created e"
  by (simp add: stopNote_def Let_def split: option.splits)

lemma getClosestBuffer_stopNote:
  "getClosestBuffer m (stopNote now nt tr when e) = getClosestBuffer m e"
  by (simp add: getClosestBuffer_def stopNote_frame cong: prod.case_cong option.case_cong)


lemma stopNote_active:
  "activeSources e (mapKey nt tr) = Some old \<Longrightarrow> ctx e \<Longrightarrow>
   stopNote now nt tr 0 e =
     e\<lparr>ops := ops e @ [SourceStop old (now + release_time e)],
       activeSources := (activeSources e)(mapKey nt tr := None)\<rparr>"
  by (simp add: stopNote_def Let_def)


lemma playNote_retrigger_silent:
  assumes "activeSources e (mapKey nt tr) = Some old" "ctx e" "isLoaded e" "masterGain e"
    "getNoteNumber nt = 0 \<or> getClosestBuffer (getNoteNumber nt + tr) e = None"
  shows "playNote now nt tr vel 0 e =
     e\<lparr>ops := ops e @ [SourceStop old (now + release_time e)],
       activeSources := (activeSources e)(mapKey nt tr := None)\<rparr>"
proof -
  note st = stopNote_active [OF assms(1,2), of now]
  have "getNoteNumber nt \<noteq> 0 \<Longrightarrow> getClosestBuffer (getNoteNumber nt + tr) (stopNote now nt tr 0 e) = None"
    using assms(5) by (simp only: getClosestBuffer_stopNote) simp
  then show ?thesis
    using assms(2-4) by (cases "getNoteNumber nt = 0") (simp_all add: playNote_def Let_def st)
qed






subsection \<open>What a pause silences\<close>

text \<open>
  Whatever the player and the engine are, the calls of \<open>pausePlayback\<close> leave every
  entry of the map other than that of C4 with transpose 0 as it was: no other sounding
  note is stopped.
\<close>

lemma pause_silences_only_C4:
  "k \<noteq> mapKey ''C4'' 0 \<Longrightarrow>
   activeSources (fold (perform now) (snd (pausePlayback p)) e) k = activeSources e k"
  by (simp add: pausePlayback_def stopNote_other)

end
